theory Spec2Isabelle
  imports Main "HOL-Library.Word" "HOL-Library.Multiset"
begin

chapter \<open>Peredvizhnikov Engine: logger, meta helpers, window task and the queue test\<close>

text \<open>
  A shallow embedding of the four source files of the repository:
  \<^item> \<^verbatim>\<open>src/meta.cpp\<close>: the compile-time loop \<^verbatim>\<open>constexpr_for\<close>;
  \<^item> \<^verbatim>\<open>src/logger.cpp\<close>: \<^verbatim>\<open>colortext\<close>, \<^verbatim>\<open>log_ex\<close> and \<^verbatim>\<open>log\<close>;
  \<^item> \<^verbatim>\<open>src/window.cpp\<close>: the constructor and the message loop of the Window task;
  \<^item> \<^verbatim>\<open>test/test_lockfree_queue.cpp\<close>: the Queue concept, BlockingQueue, the producer
    and consumer threads and the verify step.
  The first part holds the definitions, file by file; the second part the proofs.
\<close>

section \<open>Definitions\<close>

subsection \<open>meta.cpp: constexpr\_for\<close>

text \<open>
  \<^verbatim>\<open>
  template <std::size_t Start, std::size_t End, std::size_t Inc, typename F>
  constexpr inline void constexpr_for(F&& lambda)
  {
      if constexpr (Start < End) {
          lambda.template operator()<Start>();
          constexpr_for<Start + Inc, End, Inc>(lambda);
      }
  }
  \<close>
  The template arguments are \<^verbatim>\<open>std::size_t\<close> values, 64 bits wide on the
  platforms the engine builds for, so \<^verbatim>\<open>Start + Inc\<close> wraps around modulo \<open>2 ^ 64\<close>.
  The lambda is arbitrary; what the loop does with it is to invoke it at an index, so the
  model records the indices of the invocations, in order, in the list \<open>calls\<close>.
  The recursion need not end (\<^verbatim>\<open>Inc = 0\<close>, or a wrap-around below \<^verbatim>\<open>End\<close>), so
  the function is partial: \<open>None\<close> stands for a chain of instantiations that never ends.
\<close>

type_synonym size_t = "64 word"

partial_function (option) constexpr_for ::
  "size_t \<Rightarrow> size_t \<Rightarrow> size_t \<Rightarrow> size_t list \<Rightarrow> size_t list option" where
  "constexpr_for Start End Inc calls =
     (if Start < End then constexpr_for (Start + Inc) End Inc (calls @ [Start])
      else Some calls)"

text \<open>
  The specification's reading, over the natural numbers: the terms of the arithmetic
  progression \<open>Start, Start + Inc, Start + 2 * Inc, \<dots>\<close> that are strictly below
  \<open>End\<close>, in increasing order. For \<open>Inc \<ge> 1\<close> the term of index \<open>End\<close> is already
  \<open>\<ge> End\<close>, so the first \<open>End\<close> terms are enough.
\<close>

definition progression :: "nat \<Rightarrow> nat \<Rightarrow> nat \<Rightarrow> nat list" where
  "progression Start End Inc =
     filter (\<lambda>i. i < End) (map (\<lambda>k. Start + k * Inc) [0..<End])"

subsection \<open>logger.cpp: levels, colours and escape codes\<close>

text \<open>
  The two scoped enumerations. Both end with the enumerator \<^verbatim>\<open>eNumValues\<close>, which
  counts the enumerators before it and is the length of the tables below; the model
  keeps it, under the name of its enumeration.
\<close>

datatype LogLevel = eInfo | eNotice | eWarning | eError | LogLevel_eNumValues

datatype TextColor =
    eWhite | eGreen | eYellow | eRed | eBlue | eMagenta | eCyan
  | eBrightGreen | eBrightYellow | eBrightRed | eBrightBlue | eBrightMagenta | eBrightCyan
  | TextColor_eNumValues

text \<open>\<^verbatim>\<open>static_cast<int>\<close> of an enumerator: its position in the declaration.\<close>

fun LogLevel_int :: "LogLevel \<Rightarrow> nat" where
  "LogLevel_int eInfo = 0"
| "LogLevel_int eNotice = 1"
| "LogLevel_int eWarning = 2"
| "LogLevel_int eError = 3"
| "LogLevel_int LogLevel_eNumValues = 4"

fun TextColor_int :: "TextColor \<Rightarrow> nat" where
  "TextColor_int eWhite = 0"
| "TextColor_int eGreen = 1"
| "TextColor_int eYellow = 2"
| "TextColor_int eRed = 3"
| "TextColor_int eBlue = 4"
| "TextColor_int eMagenta = 5"
| "TextColor_int eCyan = 6"
| "TextColor_int eBrightGreen = 7"
| "TextColor_int eBrightYellow = 8"
| "TextColor_int eBrightRed = 9"
| "TextColor_int eBrightBlue = 10"
| "TextColor_int eBrightMagenta = 11"
| "TextColor_int eBrightCyan = 12"
| "TextColor_int TextColor_eNumValues = 13"

text \<open>
  \<^verbatim>\<open>constexpr TextColor s_level_color_map[static_cast<int>(LogLevel::eNumValues)]\<close>:
  an array of four colours.
\<close>

definition s_level_color_map :: "TextColor list" where
  "s_level_color_map = [eWhite, eGreen, eYellow, eRed]"

text \<open>
  \<^verbatim>\<open>struct ANSIEscapeCode\<close>: the escape character \<^verbatim>\<open>\033\<close> is the byte 27.
\<close>

definition ESC :: char where
  "ESC = CHR 0x1B"

definition ANSI_eWhite :: string where "ANSI_eWhite = ESC # ''[37m''"
definition ANSI_eGreen :: string where "ANSI_eGreen = ESC # ''[32m''"
definition ANSI_eYellow :: string where "ANSI_eYellow = ESC # ''[33m''"
definition ANSI_eRed :: string where "ANSI_eRed = ESC # ''[31m''"
definition ANSI_eBlue :: string where "ANSI_eBlue = ESC # ''[34m''"
definition ANSI_eMagenta :: string where "ANSI_eMagenta = ESC # ''[35m''"
definition ANSI_eCyan :: string where "ANSI_eCyan = ESC # ''[36m''"
definition ANSI_eBrightGreen :: string where "ANSI_eBrightGreen = ESC # ''[32;1m''"
definition ANSI_eBrightYellow :: string where "ANSI_eBrightYellow = ESC # ''[33;1m''"
definition ANSI_eBrightRed :: string where "ANSI_eBrightRed = ESC # ''[31;1m''"
definition ANSI_eBrightBlue :: string where "ANSI_eBrightBlue = ESC # ''[34;1m''"
definition ANSI_eBrightMagenta :: string where "ANSI_eBrightMagenta = ESC # ''[35;1m''"
definition ANSI_eBrightCyan :: string where "ANSI_eBrightCyan = ESC # ''[36;1m''"
definition ANSI_eReset :: string where "ANSI_eReset = ESC # ''[0m''"

text \<open>The table \<^verbatim>\<open>color_code_map\<close> local to \<^verbatim>\<open>colortext\<close>: thirteen entries.\<close>

definition color_code_map :: "string list" where
  "color_code_map =
     [ANSI_eWhite, ANSI_eGreen, ANSI_eYellow, ANSI_eRed, ANSI_eBlue, ANSI_eMagenta, ANSI_eCyan,
      ANSI_eBrightGreen, ANSI_eBrightYellow, ANSI_eBrightRed, ANSI_eBrightBlue,
      ANSI_eBrightMagenta, ANSI_eBrightCyan]"

subsection \<open>logger.cpp: the stream, colortext and the formatting wrappers\<close>

text \<open>
  What a call does to the outside is a sequence of events: it locks and unlocks a mutex,
  and it writes text to the stream (\<^verbatim>\<open>std::endl\<close> also flushes). A stream is the list
  of the events so far; \<^verbatim>\<open>stream << text\<close> appends one \<open>Write\<close>. The type \<open>'m\<close>
  names mutexes (\<^verbatim>\<open>iolock\<close>, \<^verbatim>\<open>errlock\<close>, or any other \<^verbatim>\<open>std::mutex\<close>).
\<close>

datatype 'm event = Lock 'm | Unlock 'm | Write string | Flush

type_synonym 'm ostream = "'m event list"

definition put :: "'m ostream \<Rightarrow> string \<Rightarrow> 'm ostream" where
  "put stream s = stream @ [Write s]"

text \<open>The characters a sequence of events has written, in order.\<close>

fun text_of :: "'m event list \<Rightarrow> string" where
  "text_of [] = []"
| "text_of (Write s # es) = s @ text_of es"
| "text_of (e # es) = text_of es"

fun is_output :: "'m event \<Rightarrow> bool" where
  "is_output (Write s) = True"
| "is_output Flush = True"
| "is_output e = False"

text \<open>
  \<^verbatim>\<open>
  if constexpr (pe::kLinux && std::derived_from<Stream, decltype(std::cout)>) {
      stream << color_code_map[static_cast<int>(color)];
      stream << printable;
      stream << ANSIEscapeCode::eReset;
  }else{
      stream << printable;
  }
  \<close>
  Every caller in the file passes a \<^verbatim>\<open>std::ostream&\<close>, the type of \<^verbatim>\<open>std::cout\<close>, so the
  condition is the platform constant \<^verbatim>\<open>pe::kLinux\<close>; module \<^verbatim>\<open>platform\<close> is not among
  the sources, and the constant is a parameter of the model. \<open>printable\<close> is the text that
  \<^verbatim>\<open>operator<<\<close> writes for the argument. The table has thirteen entries: indexing it
  with \<^verbatim>\<open>TextColor::eNumValues\<close> reads past its end, which is undefined behaviour and the
  result \<open>None\<close> here.
\<close>

definition colortext :: "bool \<Rightarrow> 'm ostream \<Rightarrow> string \<Rightarrow> TextColor \<Rightarrow> 'm ostream option" where
  "colortext kLinux stream printable color =
     (if kLinux then
        (if TextColor_int color < length color_code_map then
           Some (put (put (put stream (color_code_map ! TextColor_int color)) printable)
                   ANSI_eReset)
         else None)
      else Some (put stream printable))"

text \<open>
  An argument of \<^verbatim>\<open>log_ex\<close>: either \<^verbatim>\<open>fmt::cat\<close>, whose \<^verbatim>\<open>operator<<\<close> writes
  nothing, or any other printable value, given by the text its \<^verbatim>\<open>operator<<\<close> writes.
\<close>

datatype arg = cat | printable string

fun render :: "arg \<Rightarrow> string" where
  "render cat = []"
| "render (printable s) = s"

text \<open>
  \<^verbatim>\<open>fmt::justified\<close>: \<^verbatim>\<open>std::setw(width)\<close> with \<^verbatim>\<open>std::setfill(pad)\<close> pads the text on
  the left for \<^verbatim>\<open>std::right\<close> and on the right for \<^verbatim>\<open>std::left\<close>, up to \<open>width\<close>
  characters; a longer text is written whole.
\<close>

datatype Justify = eRight | eLeft

definition justified :: "string \<Rightarrow> nat \<Rightarrow> Justify \<Rightarrow> char \<Rightarrow> string" where
  "justified m_arg m_width m_type m_pad =
     (case m_type of
        eRight \<Rightarrow> replicate (m_width - length m_arg) m_pad @ m_arg
      | eLeft \<Rightarrow> m_arg @ replicate (m_width - length m_arg) m_pad)"

text \<open>\<^verbatim>\<open>fmt::hex\<close>: \<^verbatim>\<open>"0x"\<close>, then the argument as \<^verbatim>\<open>std::hex\<close> prints it.\<close>

definition hex :: "string \<Rightarrow> string" where
  "hex hex_digits = ''0x'' @ hex_digits"

subsection \<open>logger.cpp: log\_ex and log\<close>

text \<open>
  What a call of \<^verbatim>\<open>log_ex\<close> reads from its surroundings:
  \<^item> \<open>kLinux\<close>: the platform constant;
  \<^item> \<open>nanosec\<close>: the decimal text of \<^verbatim>\<open>now.time_since_epoch().count()\<close>;
  \<^item> \<open>thread_name\<close>: what \<^verbatim>\<open>pthread_getname_np\<close> stores for the calling thread;
  \<^item> \<open>tid\<close>: \<^verbatim>\<open>std::this_thread::get_id()\<close> as \<^verbatim>\<open>std::hex\<close> prints it;
  \<^item> \<open>thread_idx\<close>: the value \<^verbatim>\<open>s_thread_idx++\<close> returned when the calling thread
    initialised its \<^verbatim>\<open>t_thread_color\<close>.
\<close>

record log_env =
  kLinux :: bool
  nanosec :: string
  thread_name :: string
  tid :: string
  thread_idx :: nat

text \<open>
  \<^verbatim>\<open>thread_local TextColor t_thread_color{next_idx() % static_cast<int>(TextColor::eNumValues)}\<close>
\<close>

definition TextColor_enumerators :: "TextColor list" where
  "TextColor_enumerators =
     [eWhite, eGreen, eYellow, eRed, eBlue, eMagenta, eCyan, eBrightGreen, eBrightYellow,
      eBrightRed, eBrightBlue, eBrightMagenta, eBrightCyan, TextColor_eNumValues]"

definition t_thread_color :: "log_env \<Rightarrow> TextColor" where
  "t_thread_color env =
     TextColor_enumerators ! (thread_idx env mod TextColor_int TextColor_eNumValues)"

text \<open>
  The prefix, written when \<^verbatim>\<open>prefix\<close> is set:
  \<^verbatim>\<open>
  stream << "[";
  if constexpr (pe::kLinux) {
      char name[32], aligned[32];
      pthread_getname_np(handle, name, sizeof(name));
      name[12] = '\0';
      snprintf(aligned, sizeof(aligned), "%12s", name);
      colortext(stream, aligned, thread_color);
      stream << " ";
  }
  stream << fmt::colored{thread_color, std::string{fmt::hex{tid}}};
  stream << "]";
  stream << "[";
  stream << fmt::justified{nanosec.count(), 16, fmt::Justify::eRight, '0'};
  stream << "]";
  stream << " ";
  \<close>
  \<^verbatim>\<open>fmt::colored\<close> writes through \<^verbatim>\<open>colortext\<close>.
\<close>

definition log_prefix :: "log_env \<Rightarrow> 'm ostream \<Rightarrow> 'm ostream option" where
  "log_prefix env stream =
     (let thread_color = t_thread_color env;
          s1 = put stream ''['' in
      case (if kLinux env then
              (let name = take 12 (thread_name env);
                   aligned = justified name 12 eRight (CHR '' '') in
               case colortext (kLinux env) s1 aligned thread_color of
                 None \<Rightarrow> None
               | Some s2 \<Rightarrow> Some (put s2 '' ''))
            else Some s1) of
        None \<Rightarrow> None
      | Some s3 \<Rightarrow>
          (case colortext (kLinux env) s3 (hex (tid env)) thread_color of
             None \<Rightarrow> None
           | Some s4 \<Rightarrow>
               Some (put (put (put (put (put s4 '']'') ''['')
                                 (justified (nanosec env) 16 eRight (CHR ''0''))) '']'') '' '')))"

text \<open>
  The separator lambda and its two captured flags:
  \<^verbatim>\<open>
  bool prev_cat = false;
  bool first = true;
  auto getsep = [&prev_cat, &first, &separator](auto&& arg) mutable{
      bool is_cat = std::is_same_v<std::remove_cvref_t<decltype(arg)>, fmt::cat>;
      const char *ret = (first || is_cat || prev_cat) ? "" : separator;
      prev_cat = is_cat;
      first = false;
      return ret;
  };
  \<close>
\<close>

record getsep_state =
  prev_cat :: bool
  first :: bool

definition getsep_init :: getsep_state where
  "getsep_init = \<lparr>prev_cat = False, first = True\<rparr>"

definition getsep :: "string \<Rightarrow> getsep_state \<Rightarrow> arg \<Rightarrow> string \<times> getsep_state" where
  "getsep separator st a =
     (let is_cat = (a = cat);
          ret = (if first st \<or> is_cat \<or> prev_cat st then [] else separator)
      in (ret, \<lparr>prev_cat = is_cat, first = False\<rparr>))"

text \<open>
  The fold over the argument pack, left to right:
  \<^verbatim>\<open>((stream << getsep(args), colortext(stream, std::forward<Args>(args), color)), ...);\<close>
\<close>

fun log_args ::
  "bool \<Rightarrow> TextColor \<Rightarrow> string \<Rightarrow> getsep_state \<Rightarrow> arg list \<Rightarrow> 'm ostream \<Rightarrow> 'm ostream option" where
  "log_args kl color separator st [] stream = Some stream"
| "log_args kl color separator st (a # args) stream =
     (case getsep separator st a of
        (ret, st') \<Rightarrow>
          (case colortext kl (put stream ret) (render a) color of
             None \<Rightarrow> None
           | Some stream' \<Rightarrow> log_args kl color separator st' args stream'))"

text \<open>
  \<^verbatim>\<open>log_ex\<close>: the lock is taken by the \<^verbatim>\<open>std::unique_lock\<close> constructed before
  anything is written, when \<^verbatim>\<open>mutex\<close> is not null, and is released by its destructor
  when the function returns. The result is the sequence of events of the call.
\<close>

definition log_ex ::
  "log_env \<Rightarrow> 'm option \<Rightarrow> TextColor \<Rightarrow> string \<Rightarrow> bool \<Rightarrow> bool \<Rightarrow> arg list
     \<Rightarrow> 'm event list option" where
  "log_ex env mutex color separator prefix newline args =
     (let s0 = (case mutex of Some m \<Rightarrow> [Lock m] | None \<Rightarrow> []) in
      case (if prefix then log_prefix env s0 else Some s0) of
        None \<Rightarrow> None
      | Some s1 \<Rightarrow>
          (case log_args (kLinux env) color separator getsep_init args s1 of
             None \<Rightarrow> None
           | Some s2 \<Rightarrow>
               (let s3 = (if newline then put s2 [CHR 0x0A] @ [Flush] else s2)
                in Some (s3 @ (case mutex of Some m \<Rightarrow> [Unlock m] | None \<Rightarrow> [])))))"

text \<open>
  \<^verbatim>\<open>
  void log(std::ostream& stream, std::mutex *mutex, LogLevel level, Args... args)
  {
      TextColor color = s_level_color_map[static_cast<int>(level)];
      log_ex(stream, mutex, color, " ", true, true, args...);
  }
  \<close>
  The array has four entries; \<^verbatim>\<open>LogLevel::eNumValues\<close> indexes past its end (undefined
  behaviour, \<open>None\<close>).
\<close>

definition log :: "log_env \<Rightarrow> 'm option \<Rightarrow> LogLevel \<Rightarrow> arg list \<Rightarrow> 'm event list option" where
  "log env mutex level args =
     (if LogLevel_int level < length s_level_color_map then
        log_ex env mutex (s_level_color_map ! LogLevel_int level) '' '' True True args
      else None)"

text \<open>
  The specification's reading of the separators: the separator stands before the argument
  of index \<open>i\<close> unless it is the first argument, is a \<^verbatim>\<open>fmt::cat\<close>, or follows one.
\<close>

definition separator_before :: "string \<Rightarrow> arg list \<Rightarrow> nat \<Rightarrow> string" where
  "separator_before separator args i =
     (if i = 0 \<or> args ! i = cat \<or> args ! (i - 1) = cat then [] else separator)"

text \<open>The characters \<^verbatim>\<open>colortext\<close> writes for a text in a colour.\<close>

definition colored :: "bool \<Rightarrow> TextColor \<Rightarrow> string \<Rightarrow> string" where
  "colored kl color s =
     (if kl then color_code_map ! TextColor_int color @ s @ ANSI_eReset else s)"

text \<open>
  The separators \<^verbatim>\<open>getsep\<close> returns along an argument pack, from a state of its flags.
\<close>

fun chosen_separators :: "string \<Rightarrow> getsep_state \<Rightarrow> arg list \<Rightarrow> string list" where
  "chosen_separators separator st [] = []"
| "chosen_separators separator st (a # args) =
     fst (getsep separator st a) # chosen_separators separator (snd (getsep separator st a)) args"

subsection \<open>window.cpp: the Window task\<close>

text \<open>The exceptions the file throws or lets escape.\<close>

datatype exception = invalid_argument string | runtime_error string | bad_any_cast

text \<open>
  Modelled from the spec: the enumeration \<^verbatim>\<open>pe::Affinity\<close> of module \<^verbatim>\<open>sync\<close>, which is
  not among the sources. The specification gives its values as AnyWorker and MainThread;
  the source names the second \<^verbatim>\<open>Affinity::eMainThread\<close>.
\<close>

datatype Affinity = eAnyWorker | eMainThread

text \<open>
  \<^verbatim>\<open>
  Window(base::TaskCreateToken token, pe::Scheduler& scheduler,
      pe::Priority priority, pe::CreateMode mode, pe::Affinity affinity)
      : base{token, scheduler, priority, mode, affinity}
  {
      if(affinity != Affinity::eMainThread)
          throw std::invalid_argument{"Task must have main thread affinity."};
  }
  \<close>
  The constructor of the base class \<^verbatim>\<open>pe::Task\<close> belongs to module \<^verbatim>\<open>sync\<close>; it is the
  parameter \<open>base\<close>, which either throws or yields the base object. So are the types of
  the token, the scheduler, the priority and the creation mode. A constructor that throws
  yields no object: the result is then the exception alone.
\<close>

definition Window_ctor ::
  "('tok \<Rightarrow> 'sch \<Rightarrow> 'pri \<Rightarrow> 'mod \<Rightarrow> Affinity \<Rightarrow> exception + 'task)
     \<Rightarrow> 'tok \<Rightarrow> 'sch \<Rightarrow> 'pri \<Rightarrow> 'mod \<Rightarrow> Affinity \<Rightarrow> exception + 'task" where
  "Window_ctor base token scheduler priority mode affinity =
     (case base token scheduler priority mode affinity of
        Inl e \<Rightarrow> Inl e
      | Inr task \<Rightarrow>
          if affinity \<noteq> eMainThread
          then Inl (invalid_argument ''Task must have main thread affinity.'')
          else Inr task)"

text \<open>
  A \<^verbatim>\<open>std::any\<close> holds a value of any type or nothing; the model distinguishes the
  strings, which \<^verbatim>\<open>Run\<close> asks for, from some other contents. \<^verbatim>\<open>any_cast<std::string>\<close>
  by value throws \<^verbatim>\<open>std::bad_any_cast\<close> unless the content is a string.
\<close>

datatype any = any_empty | any_string string | any_size_t size_t | any_bool bool

definition any_cast_string :: "any \<Rightarrow> exception + string" where
  "any_cast_string a = (case a of any_string s \<Rightarrow> Inr s | _ \<Rightarrow> Inl bad_any_cast)"

text \<open>
  Modelled from the spec: the message type of module \<^verbatim>\<open>sync\<close>, which is not among the
  sources. Section 3: a Message has a sender, ``a non-owning (weak) reference to the
  originating Task'', a header, ``a small integer/enumeration tag'', and a payload, ``a
  type-erased value''. \<^verbatim>\<open>Run\<close> reads them as \<^verbatim>\<open>m_sender\<close> (on which it calls
  \<^verbatim>\<open>lock()\<close>), \<^verbatim>\<open>m_header\<close> and \<^verbatim>\<open>m_payload\<close> (a \<^verbatim>\<open>std::any\<close>); \<^verbatim>\<open>SetTitle\<close> sends
  the header as a \<^verbatim>\<open>uint64_t\<close>. Tasks are named by numbers; a weak reference names a task
  without keeping it alive.
\<close>

type_synonym task_id = nat

record Message =
  m_sender :: task_id
  m_header :: "64 word"
  m_payload :: any

text \<open>
  What \<^verbatim>\<open>Run\<close> acts on: the title of the SDL window, the tasks that still exist, and
  the mailbox of every task.
\<close>

record world =
  title :: string
  alive :: "task_id set"
  mailbox :: "task_id \<Rightarrow> Message list"

text \<open>
  \<^verbatim>\<open>std::weak_ptr::lock\<close>: a pointer to the task if it still exists, the null pointer
  otherwise.
\<close>

definition lock :: "world \<Rightarrow> task_id \<Rightarrow> task_id option" where
  "lock wd t = (if t \<in> alive wd then Some t else None)"

text \<open>
  Modelled from the spec: \<^verbatim>\<open>Reply\<close> of module \<^verbatim>\<open>sync\<close>, which is not among the sources.
  Section 4.3: a task replies ``by enqueueing a Message into the original sender's
  mailbox \<dots>; if the sender no longer exists, the reply is dropped (no error surfaced)''.
\<close>

definition Reply :: "world \<Rightarrow> task_id option \<Rightarrow> Message \<Rightarrow> world" where
  "Reply wd to reply =
     (case to of
        None \<Rightarrow> wd
      | Some t \<Rightarrow> wd\<lparr>mailbox := (mailbox wd)(t := mailbox wd t @ [reply])\<rparr>)"

text \<open>\<^verbatim>\<open>SDLWindow::SetTitle\<close>: \<^verbatim>\<open>SDL_SetWindowTitle(m_handle, title.c_str())\<close>.\<close>

definition SetTitle :: "world \<Rightarrow> string \<Rightarrow> world" where
  "SetTitle wd t = wd\<lparr>title := t\<rparr>"

text \<open>\<^verbatim>\<open>enum WindowOperation { eSetTitle }\<close>: its only enumerator is zero.\<close>

definition eSetTitle :: "64 word" where
  "eSetTitle = 0"

text \<open>
  One turn of the loop of \<^verbatim>\<open>Run\<close>, for the message that \<^verbatim>\<open>Receive\<close> delivered:
  \<^verbatim>\<open>
  switch(static_cast<WindowOperation>(msg.m_header)) {
  case WindowOperation::eSetTitle: {
      auto title = any_cast<std::string>(msg.m_payload);
      window.SetTitle(title);
      break;
  }}
  Reply(msg.m_sender.lock(), {this->shared_from_this()});
  \<close>
  A header other than \<^verbatim>\<open>eSetTitle\<close> matches no case (the cast is defined for the values
  of the enumeration only; the theorems below are about the header \<^verbatim>\<open>eSetTitle\<close>). The
  second argument of \<^verbatim>\<open>Reply\<close> is brace-initialised from the pointer to this task; its
  type belongs to module \<^verbatim>\<open>sync\<close>, and the model takes it to be a message whose sender is
  this task and whose other fields are empty. Nothing in \<^verbatim>\<open>Run\<close> catches an exception,
  so one thrown here leaves the routine.
\<close>

definition Run_turn :: "task_id \<Rightarrow> world \<Rightarrow> Message \<Rightarrow> exception + world" where
  "Run_turn self wd msg =
     (case (if m_header msg = eSetTitle
            then (case any_cast_string (m_payload msg) of
                    Inl e \<Rightarrow> Inl e
                  | Inr t \<Rightarrow> Inr (SetTitle wd t))
            else Inr wd) of
        Inl e \<Rightarrow> Inl e
      | Inr wd' \<Rightarrow>
          Inr (Reply wd' (lock wd' (m_sender msg))
                 \<lparr>m_sender = self, m_header = 0, m_payload = any_empty\<rparr>))"

text \<open>
  The routine over the messages that arrive, in the order \<^verbatim>\<open>Receive\<close> delivers them:
  \<^verbatim>\<open>
  auto window = SDLWindow(title, w, h);
  while(true) {
      auto msg = co_await Receive();
      ...
  }
  \<close>
  The loop has no exit; the routine is either suspended in \<^verbatim>\<open>Receive\<close> or left by an
  exception. \<^verbatim>\<open>SDL_CreateWindow\<close> is an external call: \<open>sdl_error\<close> is \<open>None\<close> when it
  returns a window and the text of \<^verbatim>\<open>SDL_GetError()\<close> when it returns null.
\<close>

datatype run_state = AwaitingMessage world | Escaped exception world

fun Run_loop :: "task_id \<Rightarrow> world \<Rightarrow> Message list \<Rightarrow> run_state" where
  "Run_loop self wd [] = AwaitingMessage wd"
| "Run_loop self wd (msg # msgs) =
     (case Run_turn self wd msg of
        Inl e \<Rightarrow> Escaped e wd
      | Inr wd' \<Rightarrow> Run_loop self wd' msgs)"

definition Run ::
  "task_id \<Rightarrow> world \<Rightarrow> string option \<Rightarrow> string \<Rightarrow> size_t \<Rightarrow> size_t \<Rightarrow> Message list \<Rightarrow> run_state" where
  "Run self wd sdl_error window_title w h msgs =
     (case sdl_error of
        Some err \<Rightarrow> Escaped (runtime_error (''Failed to create window: '' @ err)) wd
      | None \<Rightarrow> Run_loop self (wd\<lparr>title := window_title\<rparr>) msgs)"

text \<open>
  Modelled from the spec: what the task runtime of module \<^verbatim>\<open>sync\<close>, which is not among the
  sources, does when the routine of a task is left by an exception. Section 7 (d): a
  payload-type mismatch on receive ``is treated as an unrecoverable logic error in the
  receiving Task and terminates the process (no partial-state recovery attempted)''. The
  specification says nothing of other exceptions.
\<close>

datatype process_state = ProcessRuns | ProcessTerminated | Unspecified

definition process_after :: "run_state \<Rightarrow> process_state" where
  "process_after r =
     (case r of
        AwaitingMessage wd \<Rightarrow> ProcessRuns
      | Escaped e wd \<Rightarrow> (if e = bad_any_cast then ProcessTerminated else Unspecified))"

subsection \<open>test\_lockfree\_queue.cpp: the Queue concept and BlockingQueue\<close>

text \<open>
  \<^verbatim>\<open>
  template <typename Q, typename T>
  concept Queue = requires(Q queue, T value)
  {
      {queue.Enqueue(value)} -> std::same_as<void>;
      {queue.Dequeue()} -> std::same_as<std::optional<T>>;
  };
  \<close>
  Both queues of the test, \<^verbatim>\<open>pe::LockfreeQueue\<close> (module \<^verbatim>\<open>lockfree_queue\<close>, not among
  the sources) and \<^verbatim>\<open>BlockingQueue\<close>, are used through this concept: \<^verbatim>\<open>Enqueue\<close>
  returns \<^verbatim>\<open>void\<close> and \<^verbatim>\<open>Dequeue\<close> an optional value. An operation is modelled as a
  function from the queue to the value it returns and the queue afterwards.

  \<^verbatim>\<open>BlockingQueue\<close> is a \<^verbatim>\<open>std::queue\<close> behind a mutex that every operation holds from
  start to end, so the operations of different threads take effect one at a time; the
  front of the queue is the head of the list.
  \<^verbatim>\<open>
  void Enqueue(U&& value)
  {
      std::lock_guard<std::mutex> lock{m_mutex};
      m_queue.push(std::forward<U>(value));
  }
  std::optional<T> Dequeue()
  {
      std::lock_guard<std::mutex> lock{m_mutex};
      if(m_queue.empty())
          return std::nullopt;
      auto&& ret = std::make_optional(m_queue.front());
      m_queue.pop();
      return ret;
  }
  \<close>
\<close>

type_synonym 'a BlockingQueue = "'a list"

definition Enqueue :: "'a BlockingQueue \<Rightarrow> 'a \<Rightarrow> unit \<times> 'a BlockingQueue" where
  "Enqueue m_queue v = ((), m_queue @ [v])"

fun Dequeue :: "'a BlockingQueue \<Rightarrow> 'a option \<times> 'a BlockingQueue" where
  "Dequeue [] = (None, [])"
| "Dequeue (x # m_queue) = (Some x, m_queue)"



subsection \<open>test\_lockfree\_queue.cpp: producers, consumers and the verify step\<close>

text \<open>
  \<^verbatim>\<open>
  constexpr int kProducerCount = 32;
  constexpr int kConsumerCount = 32;
  constexpr int kNumValues = 10000000;
  \<close>
\<close>

definition kProducerCount :: nat where "kProducerCount = 32"
definition kConsumerCount :: nat where "kConsumerCount = 32"
definition kNumValues :: int where "kNumValues = 10000000"

text \<open>
  A run of \<^verbatim>\<open>test\<close> is an interleaving of the steps of its threads. A step is one
  access to shared state: a load or a compare-and-swap of one of the two atomic counters,
  or one queue operation, which the mutex of \<^verbatim>\<open>BlockingQueue\<close> makes indivisible. A
  load reads the current value of its counter. The counters are \<^verbatim>\<open>std::atomic_int\<close>; the
  model uses unbounded integers, and the invariant below keeps them within the number of
  values, far from the limits of \<^verbatim>\<open>int\<close>. Each thread is at one of the places below,
  with the values of its local variables.

  \<^verbatim>\<open>
  void producer(QueueType& queue)
  {
      while(produced.load(std::memory_order_relaxed) < kNumValues) {       // P_while
          int expected = produced.load(std::memory_order_relaxed);          // P_load
          do{
              if(expected == kNumValues)                                    // P_check expected
                  return;
          }while(!produced.compare_exchange_weak(expected, expected + 1,    // P_cas expected
              std::memory_order_release, std::memory_order_relaxed));
          queue.Enqueue(expected);                                          // P_enqueue expected
      }
  }
  \<close>
\<close>

datatype producer_pc =
  P_while | P_load | P_check int | P_cas int | P_enqueue int | P_returned

text \<open>
  \<^verbatim>\<open>
  void consumer(InQueue& queue, OutQueue& result)
  {
      while(consumed.load(std::memory_order_relaxed) < kNumValues) {       // C_while
          auto elem = queue.Dequeue();                                      // C_dequeue
          if(!elem.has_value())
              continue;
          result.Enqueue(*elem);                                            // C_enqueue *elem
          int expected = consumed.load(std::memory_order_relaxed);          // C_load
          while(!consumed.compare_exchange_weak(expected, consumed + 1,     // C_desired expected,
              std::memory_order_release, std::memory_order_relaxed));       // C_cas expected desired
      }
  }
  \<close>
  The second argument of the compare-and-swap, \<^verbatim>\<open>consumed + 1\<close>, is a load of the counter
  of its own, evaluated before the call: the place \<open>C_desired\<close>.
\<close>

datatype consumer_pc =
  C_while | C_dequeue | C_enqueue int | C_load | C_desired int | C_cas int int | C_returned

record test_state =
  produced :: int
  consumed :: int
  queue :: "int BlockingQueue"
  result :: "int BlockingQueue"
  producers :: "producer_pc list"
  consumers :: "consumer_pc list"

text \<open>
  \<^verbatim>\<open>test\<close> starts the producers and the consumers; the counters are zero and both queues
  are empty.
\<close>

definition test_init :: "nat \<Rightarrow> nat \<Rightarrow> test_state" where
  "test_init n_producers n_consumers =
     \<lparr>produced = 0, consumed = 0, queue = [], result = [],
      producers = replicate n_producers P_while,
      consumers = replicate n_consumers C_while\<rparr>"

text \<open>
  One step of producer \<open>i\<close>, for \<open>num_values\<close> values. \<^verbatim>\<open>compare_exchange_weak\<close> compares
  the counter with \<open>expected\<close>: if they differ it stores the counter in \<open>expected\<close> and
  fails; if they are equal it stores the new value and succeeds, or fails spuriously
  (\<open>spurious\<close>), as the weak form may.
\<close>

definition producer_step :: "int \<Rightarrow> nat \<Rightarrow> bool \<Rightarrow> test_state \<Rightarrow> test_state" where
  "producer_step num_values i spurious s =
     (if i < length (producers s) then
        (case producers s ! i of
           P_while \<Rightarrow>
             s\<lparr>producers := (producers s)[i := (if produced s < num_values then P_load else P_returned)]\<rparr>
         | P_load \<Rightarrow>
             s\<lparr>producers := (producers s)[i := P_check (produced s)]\<rparr>
         | P_check expected \<Rightarrow>
             s\<lparr>producers := (producers s)[i := (if expected = num_values then P_returned else P_cas expected)]\<rparr>
         | P_cas expected \<Rightarrow>
             (if produced s = expected \<and> \<not> spurious
              then s\<lparr>produced := expected + 1, producers := (producers s)[i := P_enqueue expected]\<rparr>
              else s\<lparr>producers := (producers s)[i := P_check (produced s)]\<rparr>)
         | P_enqueue expected \<Rightarrow>
             s\<lparr>queue := snd (Enqueue (queue s) expected), producers := (producers s)[i := P_while]\<rparr>
         | P_returned \<Rightarrow> s)
      else s)"

definition consumer_step :: "int \<Rightarrow> nat \<Rightarrow> bool \<Rightarrow> test_state \<Rightarrow> test_state" where
  "consumer_step num_values i spurious s =
     (if i < length (consumers s) then
        (case consumers s ! i of
           C_while \<Rightarrow>
             s\<lparr>consumers := (consumers s)[i := (if consumed s < num_values then C_dequeue else C_returned)]\<rparr>
         | C_dequeue \<Rightarrow>
             (case Dequeue (queue s) of
                (None, q) \<Rightarrow> s\<lparr>queue := q, consumers := (consumers s)[i := C_while]\<rparr>
              | (Some elem, q) \<Rightarrow> s\<lparr>queue := q, consumers := (consumers s)[i := C_enqueue elem]\<rparr>)
         | C_enqueue elem \<Rightarrow>
             s\<lparr>result := snd (Enqueue (result s) elem), consumers := (consumers s)[i := C_load]\<rparr>
         | C_load \<Rightarrow>
             s\<lparr>consumers := (consumers s)[i := C_desired (consumed s)]\<rparr>
         | C_desired expected \<Rightarrow>
             s\<lparr>consumers := (consumers s)[i := C_cas expected (consumed s + 1)]\<rparr>
         | C_cas expected desired \<Rightarrow>
             (if consumed s = expected \<and> \<not> spurious
              then s\<lparr>consumed := desired, consumers := (consumers s)[i := C_while]\<rparr>
              else s\<lparr>consumers := (consumers s)[i := C_desired (consumed s)]\<rparr>)
         | C_returned \<Rightarrow> s)
      else s)"

text \<open>
  A schedule names, step by step, the thread that runs next and whether a
  compare-and-swap that could succeed fails spuriously. A run is the state after a
  schedule; all runs are all schedules.
\<close>

datatype choice = Producer nat bool | Consumer nat bool

fun step :: "int \<Rightarrow> test_state \<Rightarrow> choice \<Rightarrow> test_state" where
  "step num_values s (Producer i spurious) = producer_step num_values i spurious s"
| "step num_values s (Consumer i spurious) = consumer_step num_values i spurious s"

definition run :: "int \<Rightarrow> test_state \<Rightarrow> choice list \<Rightarrow> test_state" where
  "run num_values s schedule = foldl (step num_values) s schedule"

text \<open>\<^verbatim>\<open>test\<close> returns when every task has been waited for: all threads have returned.\<close>

definition all_returned :: "test_state \<Rightarrow> bool" where
  "all_returned s \<longleftrightarrow>
     list_all (\<lambda>pc. pc = P_returned) (producers s) \<and> list_all (\<lambda>pc. pc = C_returned) (consumers s)"

text \<open>
  \<^verbatim>\<open>
  void verify(QueueType& result)
  {
      std::set<int> set{};
      std::optional<int> elem;
      do{
          elem = result.Dequeue();
          if(elem.has_value())
              set.insert(elem.value());
      }while(elem.has_value());

      assert(set.size() == kNumValues, __LINE__);

      int current = 0;
      for(auto it = set.cbegin(); it != set.cend(); it++) {
          assert(*it == current, __LINE__);
          current++;
      }
  }
  \<close>
  A \<^verbatim>\<open>std::set<int>\<close> is its elements in increasing order, each once. The test's
  \<^verbatim>\<open>assert\<close> logs the line and calls \<^verbatim>\<open>std::terminate\<close> when the predicate is false:
  the result is then the line of the failed assertion.
\<close>

datatype verdict = Passed | FailedAssert nat

function verify_drain :: "int BlockingQueue \<Rightarrow> int list \<Rightarrow> int list" where
  "verify_drain q std_set =
     (case Dequeue q of
        (None, q') \<Rightarrow> std_set
      | (Some elem, q') \<Rightarrow> verify_drain q' (insort_insert elem std_set))"
  by pat_completeness auto
termination
proof (relation "measure (\<lambda>(q, std_set). length q)")
  show "wf (measure (\<lambda>(q, std_set). length q))" by simp
next
  fix q q' :: "int BlockingQueue" and std_set :: "int list" and x v
  assume "(x, q') = Dequeue q" and "x = Some v"
  then show "((q', insort_insert v std_set), (q, std_set)) \<in> measure (\<lambda>(q, std_set). length q)"
    by (cases q) auto
qed

fun verify_order :: "int list \<Rightarrow> int \<Rightarrow> verdict" where
  "verify_order [] current = Passed"
| "verify_order (x # it) current =
     (if x = current then verify_order it (current + 1) else FailedAssert 137)"

definition verify :: "int \<Rightarrow> int BlockingQueue \<Rightarrow> verdict" where
  "verify num_values q =
     (let std_set = verify_drain q [] in
      if int (length std_set) = num_values then verify_order std_set 0 else FailedAssert 133)"

text \<open>
  What holds in every state of every run. A value is held by a producer between its
  successful compare-and-swap and its \<^verbatim>\<open>Enqueue\<close>, and by a consumer between its
  \<^verbatim>\<open>Dequeue\<close> and its \<^verbatim>\<open>Enqueue\<close> into the result; a consumer that has put a value into
  the result has not counted it until its compare-and-swap succeeds.
\<close>

definition producer_holds :: "producer_pc \<Rightarrow> int multiset" where
  "producer_holds pc = (case pc of P_enqueue expected \<Rightarrow> {#expected#} | _ \<Rightarrow> {#})"

definition consumer_holds :: "consumer_pc \<Rightarrow> int multiset" where
  "consumer_holds pc = (case pc of C_enqueue elem \<Rightarrow> {#elem#} | _ \<Rightarrow> {#})"

definition consumer_uncounted :: "consumer_pc \<Rightarrow> nat" where
  "consumer_uncounted pc =
     (case pc of C_load \<Rightarrow> 1 | C_desired expected \<Rightarrow> 1 | C_cas expected desired \<Rightarrow> 1 | _ \<Rightarrow> 0)"

definition producer_ok :: "int \<Rightarrow> producer_pc \<Rightarrow> bool" where
  "producer_ok num_values pc = (case pc of P_cas expected \<Rightarrow> expected \<noteq> num_values | _ \<Rightarrow> True)"

definition consumer_ok :: "int \<Rightarrow> consumer_pc \<Rightarrow> bool" where
  "consumer_ok c pc =
     (case pc of
        C_desired expected \<Rightarrow> expected \<le> c
      | C_cas expected desired \<Rightarrow> expected < desired \<and> desired \<le> c + 1
      | _ \<Rightarrow> True)"

definition test_inv :: "int \<Rightarrow> test_state \<Rightarrow> bool" where
  "test_inv num_values s \<longleftrightarrow>
     0 \<le> produced s \<and> produced s \<le> num_values
     \<and> mset (queue s) + mset (result s)
         + sum_list (map producer_holds (producers s))
         + sum_list (map consumer_holds (consumers s)) = mset [0..produced s - 1]
     \<and> int (length (result s)) =
         consumed s + int (sum_list (map consumer_uncounted (consumers s)))
     \<and> list_all (producer_ok num_values) (producers s)
     \<and> list_all (consumer_ok (consumed s)) (consumers s)
     \<and> (C_returned \<in> set (consumers s) \<longrightarrow> num_values \<le> consumed s)"

subsection \<open>The task runtime, from the specification\<close>

text \<open>
  Modelled from the spec: the task runtime of module \<^verbatim>\<open>sync\<close> (a Task with its state and
  mailbox, sending and receiving), none of which is among the sources. Section 3: the state
  of a Task is one of Created, Runnable, Running, Suspended-Awaiting-Message and
  Terminated, and its mailbox holds the pending Messages. Section 6: a send is ``accepted
  or Closed error''. Section 4.3: a Terminated Task ``accepts no further Messages (further
  Enqueue attempts into its mailbox fail with a Closed condition)'' and ``still answers
  queries about its own final state''; a Task ``reaches Terminated when its routine
  returns''; a receive delivers ``strictly one Message per resumption, delivered in mailbox
  arrival order''. Section 3: a Task becomes Suspended-Awaiting-Message only at a receive
  point, and Runnable when a Message becomes available.
\<close>

datatype TaskState = Created | Runnable | Running | SuspendedAwaitingMessage | Terminated

record Task =
  m_state :: TaskState
  m_mailbox :: "Message list"

datatype send_result = Accepted | Closed

definition Send :: "Task \<Rightarrow> Message \<Rightarrow> send_result \<times> Task" where
  "Send t msg =
     (if m_state t = Terminated then (Closed, t)
      else (Accepted,
            t\<lparr>m_state := (if m_state t = SuspendedAwaitingMessage then Runnable else m_state t),
              m_mailbox := m_mailbox t @ [msg]\<rparr>))"

definition Receive :: "Task \<Rightarrow> Message option \<times> Task" where
  "Receive t =
     (if m_state t = Terminated then (None, t)
      else (case m_mailbox t of
              [] \<Rightarrow> (None, t\<lparr>m_state := SuspendedAwaitingMessage\<rparr>)
            | msg # pending \<Rightarrow> (Some msg, t\<lparr>m_state := Running, m_mailbox := pending\<rparr>)))"

definition query_state :: "Task \<Rightarrow> TaskState" where
  "query_state t = m_state t"

text \<open>
  Modelled from the spec: a run of the runtime, as the sequence of what its tasks do to
  each other's mailboxes, in the order in which the operations take effect (section 5:
  the queue is linearizable). A task sends a Message to a task, a task receives its next
  Message, or the routine of a task returns. The runtime keeps the tasks, the Messages
  delivered so far with their receivers, and the outcome of every send.
\<close>

datatype runtime_event = SendTo task_id Message | ReceiveBy task_id | Returns task_id

record runtime =
  tasks :: "task_id \<Rightarrow> Task"
  delivered :: "(task_id \<times> Message) list"
  send_log :: "(task_id \<times> Message \<times> send_result) list"

definition runtime_init :: runtime where
  "runtime_init =
     \<lparr>tasks = (\<lambda>t. \<lparr>m_state = Created, m_mailbox = []\<rparr>), delivered = [], send_log = []\<rparr>"

fun runtime_step :: "runtime \<Rightarrow> runtime_event \<Rightarrow> runtime" where
  "runtime_step rt (SendTo r msg) =
     (case Send (tasks rt r) msg of
        (res, t') \<Rightarrow> rt\<lparr>tasks := (tasks rt)(r := t'), send_log := send_log rt @ [(r, msg, res)]\<rparr>)"
| "runtime_step rt (ReceiveBy r) =
     (case Receive (tasks rt r) of
        (None, t') \<Rightarrow> rt\<lparr>tasks := (tasks rt)(r := t')\<rparr>
      | (Some msg, t') \<Rightarrow>
          rt\<lparr>tasks := (tasks rt)(r := t'), delivered := delivered rt @ [(r, msg)]\<rparr>)"
| "runtime_step rt (Returns r) =
     rt\<lparr>tasks := (tasks rt)(r := (tasks rt r)\<lparr>m_state := Terminated\<rparr>)\<rparr>"

definition runtime_run :: "runtime \<Rightarrow> runtime_event list \<Rightarrow> runtime" where
  "runtime_run rt events = foldl runtime_step rt events"




text \<open>
  One schedule that lets the test end, whatever the numbers are: producer 0 claims and
  enqueues every value, one turn of five steps each; then every producer finds the counter
  at its end and returns; consumer 0 moves every value, one turn of six steps each; then
  every consumer returns.
\<close>

definition producer_turn :: "choice list" where
  "producer_turn = replicate 5 (Producer 0 False)"

definition consumer_turn :: "choice list" where
  "consumer_turn = replicate 6 (Consumer 0 False)"

definition sequential_schedule :: "nat \<Rightarrow> nat \<Rightarrow> nat \<Rightarrow> choice list" where
  "sequential_schedule n n_producers n_consumers =
     concat (replicate n producer_turn) @ map (\<lambda>i. Producer i False) [0..<n_producers]
     @ concat (replicate n consumer_turn) @ map (\<lambda>i. Consumer i False) [0..<n_consumers]"

section \<open>Proofs\<close>

subsection \<open>constexpr\_for\<close>

lemma progression_unfold:
  assumes "0 < Inc"
  shows "progression Start End Inc =
           (if Start < End then Start # progression (Start + Inc) End Inc else [])"
proof (cases "Start < End")
  case False
  then have "\<And>k. \<not> Start + k * Inc < End" by simp
  then show ?thesis using False by (simp add: progression_def)
next
  case True
  then obtain e where e: "End = Suc e" by (cases End) auto
  have far: "\<not> Start + Inc + e * Inc < End"
  proof -
    have "End \<le> End * Inc" using assms by simp
    also have "\<dots> \<le> Start + Inc + e * Inc" by (simp add: e)
    finally show ?thesis by simp
  qed
  have "[0..<End] = 0 # map Suc [0..<e]"
    unfolding e map_Suc_upt by (rule upt_conv_Cons) simp
  then have "progression Start End Inc =
      Start # filter (\<lambda>i. i < End) (map (\<lambda>k. Start + Inc + k * Inc) [0..<e])"
    using True by (simp add: progression_def comp_def add.assoc del: upt_Suc)
  moreover have "progression (Start + Inc) End Inc =
      filter (\<lambda>i. i < End) (map (\<lambda>k. Start + Inc + k * Inc) [0..<e])"
    using far by (simp add: progression_def e)
  ultimately show ?thesis using True by simp
qed

lemma progression_set:
  assumes "0 < Inc"
  shows "set (progression Start End Inc) = {i. i < End \<and> (\<exists>k. i = Start + k * Inc)}"
proof -
  have "k < End" if "Start + k * Inc < End" for k
  proof -
    have "k \<le> Start + k * Inc" using assms by (simp add: trans_le_add2)
    then show ?thesis using that by (rule le_less_trans)
  qed
  then show ?thesis by (auto simp: progression_def)
qed

lemma progression_sorted:
  assumes "0 < Inc"
  shows "sorted_wrt (<) (progression Start End Inc)"
proof -
  have "sorted_wrt (<) (map (\<lambda>k. Start + k * Inc) [0..<End])"
    using assms by (simp add: sorted_wrt_map del: upt_Suc)
  then show ?thesis
    unfolding progression_def by (rule sorted_wrt_filter)
qed

lemma progression_below: "i \<in> set (progression Start End Inc) \<Longrightarrow> i < End"
  by (simp add: progression_def)

text \<open>
  The loop with an arbitrary log of earlier invocations: as long as no invoked index plus
  \<open>Inc\<close> leaves the range of \<^verbatim>\<open>std::size_t\<close>, the loop ends and appends the progression.
  Induction on the distance from \<open>Start\<close> to \<open>End\<close>.
\<close>

lemma constexpr_for_acc:
  assumes "0 < unat Inc"
    and "\<forall>i\<in>set (progression (unat Start) (unat End) (unat Inc)). i + unat Inc < 2 ^ 64"
  shows "constexpr_for Start End Inc calls =
           Some (calls @ map of_nat (progression (unat Start) (unat End) (unat Inc)))"
  using assms
proof (induction "unat End - unat Start" arbitrary: Start calls rule: less_induct)
  case less
  show ?case
  proof (cases "Start < End")
    case False
    then have "\<not> unat Start < unat End" by (simp add: word_less_nat_alt)
    then have "progression (unat Start) (unat End) (unat Inc) = []"
      using less.prems(1) by (simp add: progression_unfold)
    then show ?thesis using False by (subst constexpr_for.simps) simp
  next
    case True
    then have lt: "unat Start < unat End" by (simp add: word_less_nat_alt)
    have unf: "progression (unat Start) (unat End) (unat Inc) =
        unat Start # progression (unat Start + unat Inc) (unat End) (unat Inc)"
      using less.prems(1) lt by (simp add: progression_unfold)
    then have "unat Start + unat Inc < 2 ^ 64" using less.prems(2) by simp
    then have nowrap: "unat (Start + Inc) = unat Start + unat Inc"
      by (simp add: unat_add_lem [THEN iffD1])
    have "constexpr_for (Start + Inc) End Inc (calls @ [Start]) =
        Some ((calls @ [Start]) @ map of_nat (progression (unat (Start + Inc)) (unat End) (unat Inc)))"
    proof (rule less.hyps)
      show "unat End - unat (Start + Inc) < unat End - unat Start"
        using nowrap lt less.prems(1) by simp
      show "0 < unat Inc" by (rule less.prems(1))
      show "\<forall>i\<in>set (progression (unat (Start + Inc)) (unat End) (unat Inc)). i + unat Inc < 2 ^ 64"
        using less.prems(2) unf nowrap by simp
    qed
    then show ?thesis
      using True unf nowrap by (subst constexpr_for.simps) simp
  qed
qed

text \<open>
  Claim C10, as the code has it. For every \<open>Start\<close>, \<open>End\<close> and \<open>Inc \<ge> 1\<close> such that
  no index of the progression below \<open>End\<close> overflows \<^verbatim>\<open>std::size_t\<close> when \<open>Inc\<close> is
  added to it (the first term that is \<open>\<ge> End\<close> is still below \<open>2 ^ 64\<close>),
  \<^verbatim>\<open>constexpr_for<Start, End, Inc>(f)\<close> terminates, and the indices at which it invokes
  \<open>f\<close> are, read as numbers, the terms of the progression
  \<open>Start, Start + Inc, Start + 2 * Inc, \<dots>\<close> strictly below \<open>End\<close>: in strictly
  increasing order (so each exactly once), and exactly the indices \<open>i < End\<close> of the form
  \<open>Start + k * Inc\<close>. For \<open>Start \<ge> End\<close> the progression is empty and \<open>f\<close> is never
  invoked.
\<close>

theorem constexpr_for_progression:
  assumes "1 \<le> unat Inc"
    and "\<forall>i\<in>set (progression (unat Start) (unat End) (unat Inc)). i + unat Inc < 2 ^ 64"
  shows "\<exists>calls. constexpr_for Start End Inc [] = Some calls
           \<and> map unat calls = progression (unat Start) (unat End) (unat Inc)
           \<and> sorted_wrt (<) calls
           \<and> set calls = {i. i < End \<and> (\<exists>k. unat i = unat Start + k * unat Inc)}"
proof -
  let ?P = "progression (unat Start) (unat End) (unat Inc)"
  let ?C = "map of_nat ?P :: size_t list"
  have pos: "0 < unat Inc" using assms(1) by simp
  have run: "constexpr_for Start End Inc [] = Some ?C"
    using constexpr_for_acc [OF pos assms(2), of "[]"] by simp
  have small: "i < 2 ^ 64" if "i \<in> set ?P" for i
  proof -
    have "i < unat End" using that by (rule progression_below)
    also have "\<dots> < 2 ^ 64" using unsigned_less [of End] by simp
    finally show ?thesis .
  qed
  have "unat (of_nat i :: size_t) = i" if "i \<in> set ?P" for i
    using small [OF that] by (simp add: unat_of_nat)
  then have unat_C: "map unat ?C = ?P"
    by (simp add: map_idI)
  have "sorted_wrt (<) (map unat ?C)"
    unfolding unat_C using pos by (rule progression_sorted)
  then have srt: "sorted_wrt (<) ?C"
    by (simp only: sorted_wrt_map word_less_nat_alt)
  have mem: "i \<in> set ?C \<longleftrightarrow> unat i \<in> set ?P" for i
  proof
    assume "i \<in> set ?C"
    then have "unat i \<in> set (map unat ?C)" by (simp only: set_map) (rule imageI)
    then show "unat i \<in> set ?P" by (simp only: unat_C)
  next
    assume "unat i \<in> set ?P"
    then have "of_nat (unat i) \<in> set ?C" by (simp only: set_map) (rule imageI)
    then show "i \<in> set ?C" by simp
  qed
  have st: "set ?C = {i. i < End \<and> (\<exists>k. unat i = unat Start + k * unat Inc)}"
    by (rule set_eqI) (simp only: mem, simp add: progression_set [OF pos] word_less_nat_alt)
  show ?thesis using run unat_C srt st by blast
qed

text \<open>
  The theorem at \<^verbatim>\<open>constexpr_for<0, 10, 3>\<close>: the lambda is invoked at 0, 3, 6 and 9.
\<close>

theorem constexpr_for_progression_witness:
  "\<exists>calls. constexpr_for 0 10 3 [] = Some calls \<and> map unat calls = [0, 3, 6, 9]"
proof -
  have p: "progression (unat (0::size_t)) (unat (10::size_t)) (unat (3::size_t)) = [0, 3, 6, 9]"
    by (simp add: progression_def) code_simp
  have h1: "1 \<le> unat (3::size_t)" by simp
  have h2: "\<forall>i\<in>set (progression (unat (0::size_t)) (unat (10::size_t)) (unat (3::size_t))).
      i + unat (3::size_t) < 2 ^ 64"
    by (simp only: p) simp
  from constexpr_for_progression [OF h1 h2]
  obtain calls where "constexpr_for 0 10 3 [] = Some calls"
    and "map unat calls = progression (unat (0::size_t)) (unat (10::size_t)) (unat (3::size_t))"
    by (elim exE conjE)
  then show ?thesis by (simp only: p) (rule exI, simp)
qed

text \<open>
  Claim C10 as stated fails where \<^verbatim>\<open>Start + Inc\<close> wraps around:
  \<^verbatim>\<open>constexpr_for<1, 2, SIZE_MAX>\<close> has \<open>Inc \<ge> 1\<close>, and the only term of the progression
  \<open>1, 1 + Inc, \<dots>\<close> below \<open>End = 2\<close> is \<open>1\<close>; the code invokes the lambda at \<open>1\<close> and
  then, since \<open>1 + (2 ^ 64 - 1)\<close> wraps to \<open>0 < 2\<close>, at \<open>0\<close> as well.
\<close>

theorem constexpr_for_wraps_counterexample:
  "1 \<le> unat (18446744073709551615 :: size_t)
   \<and> constexpr_for 1 2 18446744073709551615 [] = Some [1, 0]
   \<and> progression (unat (1::size_t)) (unat (2::size_t)) (unat (18446744073709551615 :: size_t)) = [1]"
proof -
  have "progression 1 2 18446744073709551615 = [1]"
    by (simp add: progression_def numeral_2_eq_2)
  moreover have "constexpr_for 1 2 18446744073709551615 [] = Some [1, 0]"
    by (simp add: constexpr_for.simps)
  ultimately show ?thesis by simp
qed

subsection \<open>logger.cpp: what the stream receives\<close>

lemma text_of_append: "text_of (xs @ ys) = text_of xs @ text_of ys"
  by (induction xs rule: text_of.induct) simp_all

lemma TextColor_int_valid: "TextColor_int color < length color_code_map \<longleftrightarrow> color \<noteq> TextColor_eNumValues"
  by (cases color) (simp_all add: color_code_map_def)

text \<open>\<^verbatim>\<open>colortext\<close> appends output events only, and their text is the coloured text.\<close>

lemma colortext_appends:
  assumes "kl \<longrightarrow> color \<noteq> TextColor_eNumValues"
  shows "\<exists>ws. colortext kl stream s color = Some (stream @ ws)
           \<and> (\<forall>e\<in>set ws. is_output e) \<and> text_of ws = colored kl color s"
proof (cases kl)
  case True
  then have "TextColor_int color < length color_code_map"
    using assms by (simp add: TextColor_int_valid)
  then have "colortext kl stream s color =
      Some (stream @ [Write (color_code_map ! TextColor_int color), Write s, Write ANSI_eReset])"
    using True by (simp add: colortext_def put_def)
  then show ?thesis using True by (simp add: colored_def)
next
  case False
  then have "colortext kl stream s color = Some (stream @ [Write s])"
    by (simp add: colortext_def put_def)
  then show ?thesis using False by (simp add: colored_def)
qed

text \<open>The argument loop, from any state of the separator flags.\<close>

lemma log_args_appends:
  assumes "kl \<longrightarrow> color \<noteq> TextColor_eNumValues"
  shows "\<exists>ws. log_args kl color separator st args stream = Some (stream @ ws)
           \<and> (\<forall>e\<in>set ws. is_output e)
           \<and> text_of ws =
               concat (map2 (\<lambda>sep a. sep @ colored kl color (render a))
                         (chosen_separators separator st args) args)"
proof (induction args arbitrary: st stream)
  case Nil
  show ?case by simp
next
  case (Cons a args)
  obtain ret st' where g: "getsep separator st a = (ret, st')"
    by (cases "getsep separator st a")
  from colortext_appends [OF assms, of "put stream ret" "render a"]
  obtain ws1 where c: "colortext kl (put stream ret) (render a) color = Some (put stream ret @ ws1)"
    and o1: "\<forall>e\<in>set ws1. is_output e" and t1: "text_of ws1 = colored kl color (render a)"
    by (elim exE conjE)
  from Cons.IH [of st' "put stream ret @ ws1"]
  obtain ws2 where r: "log_args kl color separator st' args (put stream ret @ ws1) =
      Some ((put stream ret @ ws1) @ ws2)"
    and o2: "\<forall>e\<in>set ws2. is_output e"
    and t2: "text_of ws2 = concat (map2 (\<lambda>sep a. sep @ colored kl color (render a))
                         (chosen_separators separator st' args) args)"
    by (elim exE conjE)
  let ?ws = "Write ret # ws1 @ ws2"
  have "log_args kl color separator st (a # args) stream = Some (stream @ ?ws)"
    using g c r by (simp add: put_def)
  moreover have "\<forall>e\<in>set ?ws. is_output e"
    using o1 o2 by auto
  moreover have "text_of ?ws = concat (map2 (\<lambda>sep a. sep @ colored kl color (render a))
                         (chosen_separators separator st (a # args)) (a # args))"
    using g t1 t2 by (simp add: text_of_append)
  ultimately show ?case by blast
qed

text \<open>
  Which separator \<^verbatim>\<open>getsep\<close> returns at each position: at the first position it depends
  on the flags, afterwards on the argument and its predecessor only.
\<close>

lemma length_chosen_separators: "length (chosen_separators separator st args) = length args"
  by (induction args arbitrary: st) simp_all

lemma chosen_separators_nth:
  assumes "i < length args"
  shows "chosen_separators separator st args ! i =
           (if i = 0
            then (if first st \<or> args ! 0 = cat \<or> prev_cat st then [] else separator)
            else separator_before separator args i)"
  using assms
proof (induction args arbitrary: st i)
  case Nil
  then show ?case by simp
next
  case (Cons a args)
  show ?case
  proof (cases i)
    case 0
    then show ?thesis by (simp add: getsep_def Let_def)
  next
    case (Suc j)
    then have j: "j < length args" using Cons.prems by simp
    show ?thesis
    proof (cases j)
      case 0
      then show ?thesis
        using Suc j Cons.IH [OF j, of "snd (getsep separator st a)"]
        by (simp add: getsep_def Let_def separator_before_def)
    next
      case (Suc k)
      then show ?thesis
        using \<open>i = Suc j\<close> j Cons.IH [OF j, of "snd (getsep separator st a)"]
        by (simp add: separator_before_def)
    qed
  qed
qed

lemma chosen_separators_init:
  "chosen_separators separator getsep_init args =
     map (separator_before separator args) [0..<length args]"
proof (rule nth_equalityI)
  show "length (chosen_separators separator getsep_init args) =
      length (map (separator_before separator args) [0..<length args])"
    by (simp add: length_chosen_separators)
next
  fix i
  assume "i < length (chosen_separators separator getsep_init args)"
  then have i: "i < length args" by (simp add: length_chosen_separators)
  show "chosen_separators separator getsep_init args ! i =
      map (separator_before separator args) [0..<length args] ! i"
    using i chosen_separators_nth [OF i, of separator getsep_init]
    by (simp add: getsep_init_def separator_before_def)
qed

lemma map2_separators:
  "map2 f (map g [0..<length args]) args = map (\<lambda>i. f (g i) (args ! i)) [0..<length args]"
  by (rule nth_equalityI) simp_all

lemma log_args_init:
  assumes "kl \<longrightarrow> color \<noteq> TextColor_eNumValues"
  shows "\<exists>ws. log_args kl color separator getsep_init args stream = Some (stream @ ws)
           \<and> (\<forall>e\<in>set ws. is_output e)
           \<and> text_of ws =
               concat (map (\<lambda>i. separator_before separator args i
                                  @ colored kl color (render (args ! i))) [0..<length args])"
  using log_args_appends [OF assms, of separator getsep_init args stream]
  by (simp only: chosen_separators_init map2_separators)

text \<open>The colour of a thread is one of the thirteen colours, never the count.\<close>

lemma t_thread_color_valid: "t_thread_color env \<noteq> TextColor_eNumValues"
proof -
  have "k < 13 \<Longrightarrow> TextColor_enumerators ! k \<noteq> TextColor_eNumValues" for k
    by (auto simp: TextColor_enumerators_def numeral_eq_Suc less_Suc_eq)
  then show ?thesis by (simp add: t_thread_color_def)
qed

text \<open>The prefix is a fixed sequence of writes, whatever the stream holds already.\<close>

lemma log_prefix_appends:
  "\<exists>pre. (\<forall>stream. log_prefix env stream = Some (stream @ pre)) \<and> (\<forall>e\<in>set pre. is_output e)"
proof (cases "kLinux env")
  case True
  have v: "TextColor_int (t_thread_color env) < length color_code_map"
    by (simp add: TextColor_int_valid t_thread_color_valid)
  let ?code = "Write (color_code_map ! TextColor_int (t_thread_color env))"
  let ?pre = "[Write ''['', ?code, Write (justified (take 12 (thread_name env)) 12 eRight (CHR '' '')),
      Write ANSI_eReset, Write '' '', ?code, Write (hex (tid env)), Write ANSI_eReset,
      Write '']'', Write ''['', Write (justified (nanosec env) 16 eRight (CHR ''0'')),
      Write '']'', Write '' '']"
  have "\<forall>stream. log_prefix env stream = Some (stream @ ?pre)"
    using True v by (simp add: log_prefix_def colortext_def put_def Let_def)
  moreover have "\<forall>e\<in>set ?pre. is_output e" by simp
  ultimately show ?thesis by blast
next
  case False
  let ?pre = "[Write ''['', Write (hex (tid env)),
      Write '']'', Write ''['', Write (justified (nanosec env) 16 eRight (CHR ''0'')),
      Write '']'', Write '' '']"
  have "\<forall>stream. log_prefix env stream = Some (stream @ ?pre)"
    using False by (simp add: log_prefix_def colortext_def put_def Let_def)
  moreover have "\<forall>e\<in>set ?pre. is_output e" by simp
  ultimately show ?thesis by blast
qed

text \<open>
  The whole call: the lock if there is a mutex, the prefix if asked for, the arguments
  with their separators, the newline if asked for, the unlock if there is a mutex.
\<close>

lemma log_ex_trace:
  fixes mutex :: "'m option"
  assumes "kLinux env \<longrightarrow> color \<noteq> TextColor_eNumValues"
  shows "\<exists>pre ws. log_prefix env [] = Some pre
           \<and> (\<forall>e\<in>set pre. is_output e) \<and> (\<forall>e\<in>set ws. is_output e)
           \<and> text_of ws =
               concat (map (\<lambda>i. separator_before separator args i
                                  @ colored (kLinux env) color (render (args ! i)))
                         [0..<length args])
           \<and> log_ex env mutex color separator prefix newline args =
               Some ((case mutex of Some m \<Rightarrow> [Lock m] | None \<Rightarrow> [])
                     @ (if prefix then pre else []) @ ws
                     @ (if newline then [Write [CHR 0x0A], Flush] else [])
                     @ (case mutex of Some m \<Rightarrow> [Unlock m] | None \<Rightarrow> []))"
proof -
  let ?s0 = "case mutex of Some m \<Rightarrow> [Lock m] | None \<Rightarrow> []"
  obtain pre :: "'m event list"
    where p: "\<forall>stream. log_prefix env stream = Some (stream @ pre)"
    and po: "\<forall>e\<in>set pre. is_output e"
    using log_prefix_appends [of env] by (elim exE conjE)
  let ?s1 = "?s0 @ (if prefix then pre else [])"
  from log_args_init [OF assms, of separator args ?s1]
  obtain ws where a: "log_args (kLinux env) color separator getsep_init args ?s1 = Some (?s1 @ ws)"
    and wo: "\<forall>e\<in>set ws. is_output e"
    and wt: "text_of ws = concat (map (\<lambda>i. separator_before separator args i
                                  @ colored (kLinux env) color (render (args ! i)))
                         [0..<length args])"
    by (elim exE conjE)
  have p0: "log_prefix env [] = Some pre" using p by simp
  have "(if prefix then log_prefix env ?s0 else Some ?s0) = Some ?s1"
    using p by simp
  then have "log_ex env mutex color separator prefix newline args =
      Some (?s1 @ ws @ (if newline then [Write [CHR 0x0A], Flush] else [])
            @ (case mutex of Some m \<Rightarrow> [Unlock m] | None \<Rightarrow> []))"
    using a by (simp add: log_ex_def put_def Let_def)
  then show ?thesis using p0 po wo wt by auto
qed

text \<open>
  Claim C9. In \<^verbatim>\<open>log_ex\<close>, with a colour that \<^verbatim>\<open>colortext\<close> can look up, the text
  written is the prefix (when asked for), then the arguments in order, each written through
  \<^verbatim>\<open>colortext\<close> and preceded by the separator, except that nothing precedes the first
  argument, an argument that is a \<^verbatim>\<open>fmt::cat\<close>, and an argument that follows a
  \<^verbatim>\<open>fmt::cat\<close>; then the newline (when asked for). A \<^verbatim>\<open>fmt::cat\<close> itself renders as
  the empty text, so its two neighbours are written with no separator between them.
\<close>

theorem log_ex_separators:
  fixes mutex :: "'m option"
  assumes "kLinux env \<longrightarrow> color \<noteq> TextColor_eNumValues"
  shows "\<exists>(pre :: 'm event list) out. log_prefix env [] = Some pre
           \<and> log_ex env mutex color separator prefix newline args = Some out
           \<and> text_of out =
               (if prefix then text_of pre else [])
               @ concat (map (\<lambda>i. separator_before separator args i
                                    @ colored (kLinux env) color (render (args ! i)))
                           [0..<length args])
               @ (if newline then [CHR 0x0A] else [])
           \<and> render cat = []"
proof -
  from log_ex_trace [OF assms, of separator args mutex prefix newline]
  obtain pre ws where "log_prefix env [] = Some pre"
    and "text_of ws = concat (map (\<lambda>i. separator_before separator args i
                                  @ colored (kLinux env) color (render (args ! i)))
                         [0..<length args])"
    and "log_ex env mutex color separator prefix newline args =
               Some ((case mutex of Some m \<Rightarrow> [Lock m] | None \<Rightarrow> [])
                     @ (if prefix then pre else []) @ ws
                     @ (if newline then [Write [CHR 0x0A], Flush] else [])
                     @ (case mutex of Some m \<Rightarrow> [Unlock m] | None \<Rightarrow> []))"
    by (elim exE conjE)
  then show ?thesis
    by (cases mutex) (simp_all add: text_of_append)
qed

text \<open>
  The theorem on a platform without colours, with the separator \<^verbatim>\<open>", "\<close>, no prefix and
  no newline, at the arguments \<^verbatim>\<open>"a", "b", fmt::cat{}, "c"\<close>: the line is \<^verbatim>\<open>a, bc\<close>.
\<close>

theorem log_ex_separators_witness:
  "\<exists>out. log_ex \<lparr>kLinux = False, nanosec = ''1'', thread_name = ''main'', tid = ''1'', thread_idx = 0\<rparr>
            (None :: nat option) eWhite '', '' False False
            [printable ''a'', printable ''b'', cat, printable ''c''] = Some out
         \<and> text_of out = ''a, bc''"
proof -
  let ?env = "\<lparr>kLinux = False, nanosec = ''1'', thread_name = ''main'', tid = ''1'', thread_idx = 0\<rparr>"
  let ?args = "[printable ''a'', printable ''b'', cat, printable ''c'']"
  have h: "kLinux ?env \<longrightarrow> eWhite \<noteq> TextColor_eNumValues" by simp
  have idx: "[0..<length ?args] = [0, 1, 2, 3]" by (simp add: upt_rec)
  from log_ex_separators [OF h, of "None :: nat option" "'', ''" False False ?args]
  obtain out where "log_ex ?env (None :: nat option) eWhite '', '' False False ?args = Some out"
    and "text_of out = concat (map (\<lambda>i. separator_before '', '' ?args i
                                    @ colored (kLinux ?env) eWhite (render (?args ! i)))
                           [0..<length ?args])"
    by (elim exE conjE) simp
  then show ?thesis
    by (simp only: idx) (simp add: separator_before_def colored_def)
qed

text \<open>
  Claim C8. For each of the four severities, \<^verbatim>\<open>log(stream, mutex, level, args...)\<close> looks
  up the colour of the severity in \<^verbatim>\<open>s_level_color_map\<close> (\<^verbatim>\<open>eInfo\<close> white,
  \<^verbatim>\<open>eNotice\<close> green, \<^verbatim>\<open>eWarning\<close> yellow, \<^verbatim>\<open>eError\<close> red) and performs, in this
  order: the lock of the mutex when one is supplied; the writes of the prefix; the writes
  of the arguments in the given order, each through \<^verbatim>\<open>colortext\<close> in that colour, with
  single spaces as separators; the newline and the flush; the unlock of the mutex when one
  is supplied. So with a mutex the whole line is written between its lock and its unlock.
\<close>

theorem log_level_color_under_mutex:
  fixes mutex :: "'m option"
  assumes "(level, color) \<in> {(eInfo, eWhite), (eNotice, eGreen), (eWarning, eYellow), (eError, eRed)}"
  shows "s_level_color_map ! LogLevel_int level = color
         \<and> (\<exists>(pre :: 'm event list) ws.
               log_prefix env [] = Some pre
             \<and> (\<forall>e\<in>set pre. is_output e) \<and> (\<forall>e\<in>set ws. is_output e)
             \<and> text_of ws =
                 concat (map (\<lambda>i. separator_before '' '' args i
                                    @ colored (kLinux env) color (render (args ! i)))
                           [0..<length args])
             \<and> log env mutex level args =
                 Some ((case mutex of Some m \<Rightarrow> [Lock m] | None \<Rightarrow> [])
                       @ pre @ ws @ [Write [CHR 0x0A], Flush]
                       @ (case mutex of Some m \<Rightarrow> [Unlock m] | None \<Rightarrow> [])))"
proof -
  have c: "s_level_color_map ! LogLevel_int level = color"
    and l: "LogLevel_int level < length s_level_color_map"
    and v: "kLinux env \<longrightarrow> color \<noteq> TextColor_eNumValues"
    using assms by (auto simp: s_level_color_map_def)
  have "log env mutex level args = log_ex env mutex color '' '' True True args"
    using c l by (simp add: log_def)
  then show ?thesis
    using c log_ex_trace [OF v, of "'' ''" args mutex True True] by simp
qed

text \<open>
  The theorem on Linux, for a warning with the arguments \<^verbatim>\<open>"disk", "full"\<close> logged under
  the mutex \<open>0\<close> by the thread \<^verbatim>\<open>main\<close>, the first thread to log: the lock comes first,
  the unlock last, and the line is yellow.
\<close>

theorem log_level_color_under_mutex_witness:
  "\<exists>ws. log \<lparr>kLinux = True, nanosec = ''42'', thread_name = ''main'', tid = ''1'', thread_idx = 0\<rparr>
            (Some (0::nat)) eWarning [printable ''disk'', printable ''full'']
          = Some (Lock 0 # ws @ [Unlock 0])
        \<and> list_all is_output ws
        \<and> text_of ws =
            ''['' @ ANSI_eWhite @ ''        main'' @ ANSI_eReset @ '' ''
            @ ANSI_eWhite @ ''0x1'' @ ANSI_eReset @ ''][0000000000000042] ''
            @ ANSI_eYellow @ ''disk'' @ ANSI_eReset @ '' ''
            @ ANSI_eYellow @ ''full'' @ ANSI_eReset @ [CHR 0x0A]"
proof -
  let ?env = "\<lparr>kLinux = True, nanosec = ''42'', thread_name = ''main'', tid = ''1'', thread_idx = 0\<rparr>"
  let ?args = "[printable ''disk'', printable ''full'']"
  have h: "(eWarning, eYellow) \<in> {(eInfo, eWhite), (eNotice, eGreen), (eWarning, eYellow), (eError, eRed)}"
    by simp
  have idx: "[0..<length ?args] = [0, 1]" by (simp add: upt_rec)
  from log_level_color_under_mutex [OF h, of ?env ?args "Some (0::nat)"]
  obtain pre :: "nat event list" and ws where p: "log_prefix ?env [] = Some pre"
    and po: "\<forall>e\<in>set pre. is_output e" and wo: "\<forall>e\<in>set ws. is_output e"
    and wt: "text_of ws = concat (map (\<lambda>i. separator_before '' '' ?args i
                                    @ colored (kLinux ?env) eYellow (render (?args ! i)))
                           [0..<length ?args])"
    and r: "log ?env (Some (0::nat)) eWarning ?args =
        Some ((case Some (0::nat) of Some m \<Rightarrow> [Lock m] | None \<Rightarrow> [])
              @ pre @ ws @ [Write [CHR 0x0A], Flush]
              @ (case Some (0::nat) of Some m \<Rightarrow> [Unlock m] | None \<Rightarrow> []))"
    by (elim exE conjE)
  have j: "justified ''main'' 12 eRight (CHR '' '') = ''        main''"
    "justified ''42'' 16 eRight (CHR ''0'') = ''0000000000000042''"
    by code_simp+
  have tc: "t_thread_color ?env = eWhite"
    by (simp add: t_thread_color_def TextColor_enumerators_def)
  have pt: "text_of pre = ''['' @ ANSI_eWhite @ ''        main'' @ ANSI_eReset @ '' ''
            @ ANSI_eWhite @ ''0x1'' @ ANSI_eReset @ ''][0000000000000042] ''"
    using p by (auto simp: log_prefix_def colortext_def put_def Let_def tc j color_code_map_def hex_def)
  have at: "text_of ws = ANSI_eYellow @ ''disk'' @ ANSI_eReset @ '' ''
            @ ANSI_eYellow @ ''full'' @ ANSI_eReset"
    using wt by (simp only: idx) (simp add: separator_before_def colored_def color_code_map_def)
  let ?ws = "pre @ ws @ [Write [CHR 0x0A], Flush]"
  have "log ?env (Some (0::nat)) eWarning ?args = Some (Lock 0 # ?ws @ [Unlock 0])"
    using r by simp
  moreover have "list_all is_output ?ws"
    using po wo by (auto simp: list_all_iff)
  moreover have "text_of ?ws = ''['' @ ANSI_eWhite @ ''        main'' @ ANSI_eReset @ '' ''
            @ ANSI_eWhite @ ''0x1'' @ ANSI_eReset @ ''][0000000000000042] ''
            @ ANSI_eYellow @ ''disk'' @ ANSI_eReset @ '' ''
            @ ANSI_eYellow @ ''full'' @ ANSI_eReset @ [CHR 0x0A]"
    using pt at by (simp add: text_of_append)
  ultimately show ?thesis by blast
qed

subsection \<open>window.cpp: construction, payload mismatch and replies\<close>

text \<open>
  Claim C5, for the task kind in the sources. Constructing a Window with any affinity
  other than \<^verbatim>\<open>eMainThread\<close> never yields a task, whatever the token, scheduler,
  priority and creation mode are and whatever the base constructor does: the constructor
  throws, and when the base constructor succeeds what it throws is
  \<^verbatim>\<open>std::invalid_argument\<close>. The failure is the constructor's own, so it happens when the
  task is created; no object exists whose routine could be resumed.
\<close>

theorem Window_ctor_requires_main_thread:
  assumes "affinity \<noteq> eMainThread"
  shows "(\<exists>e. Window_ctor base token scheduler priority mode affinity = Inl e)
         \<and> (\<forall>task. base token scheduler priority mode affinity = Inr task \<longrightarrow>
               Window_ctor base token scheduler priority mode affinity =
                 Inl (invalid_argument ''Task must have main thread affinity.''))"
  using assms by (simp add: Window_ctor_def split: sum.splits)

text \<open>
  The theorem for a worker affinity and a base constructor that succeeds: no Window.
\<close>

theorem Window_ctor_requires_main_thread_witness:
  "Window_ctor (\<lambda>token scheduler priority mode affinity. Inr (7::nat)) () () (1::nat) True eAnyWorker
     = (Inl (invalid_argument ''Task must have main thread affinity.'') :: exception + nat)"
proof -
  have "eAnyWorker \<noteq> eMainThread" by simp
  from Window_ctor_requires_main_thread [OF this,
      of "\<lambda>token scheduler priority mode affinity. Inr (7::nat)" "()" "()" "1::nat" True]
  show ?thesis by simp
qed

lemma Run_loop_append:
  "Run_loop self wd before = AwaitingMessage wd' \<Longrightarrow>
   Run_loop self wd (before @ msgs) = Run_loop self wd' msgs"
  by (induction before arbitrary: wd) (auto split: sum.splits)

lemma any_cast_string_mismatch:
  "(\<forall>s. a \<noteq> any_string s) \<Longrightarrow> any_cast_string a = Inl bad_any_cast"
  by (cases a) (simp_all add: any_cast_string_def)

text \<open>
  Claim C6. When the Window task receives a message with the header \<^verbatim>\<open>eSetTitle\<close> whose
  payload is not a \<^verbatim>\<open>std::string\<close>, after any messages it has handled before, the
  \<^verbatim>\<open>any_cast\<close> throws \<^verbatim>\<open>std::bad_any_cast\<close>; nothing in \<^verbatim>\<open>Run\<close> catches it, so the
  routine is left at once: the title is not set, no reply is sent, no later message is
  handled, and the state is the one before the message. By the specification's rule for
  such an exception the process then terminates.
\<close>

theorem payload_mismatch_is_fatal:
  assumes "m_header msg = eSetTitle"
    and "\<forall>s. m_payload msg \<noteq> any_string s"
    and "Run_loop self wd before = AwaitingMessage wd'"
  shows "Run_turn self wd' msg = Inl bad_any_cast
         \<and> Run_loop self wd (before @ msg # rest) = Escaped bad_any_cast wd'
         \<and> process_after (Run_loop self wd (before @ msg # rest)) = ProcessTerminated"
proof -
  have t: "Run_turn self wd' msg = Inl bad_any_cast"
    using assms(1) any_cast_string_mismatch [OF assms(2)] by (simp add: Run_turn_def)
  then have "Run_loop self wd' (msg # rest) = Escaped bad_any_cast wd'" by simp
  then have "Run_loop self wd (before @ msg # rest) = Escaped bad_any_cast wd'"
    using Run_loop_append [OF assms(3)] by simp
  then show ?thesis using t by (simp add: process_after_def)
qed

text \<open>
  The theorem for a window titled \<^verbatim>\<open>old\<close> that receives a number where the title
  should be, followed by a well-formed request that is never handled.
\<close>

theorem payload_mismatch_is_fatal_witness:
  "Run_loop 0 \<lparr>title = ''old'', alive = {0, 1}, mailbox = (\<lambda>t. [])\<rparr>
     [\<lparr>m_sender = 1, m_header = eSetTitle, m_payload = any_size_t 5\<rparr>,
      \<lparr>m_sender = 1, m_header = eSetTitle, m_payload = any_string ''new''\<rparr>]
   = Escaped bad_any_cast \<lparr>title = ''old'', alive = {0, 1}, mailbox = (\<lambda>t. [])\<rparr>
   \<and> process_after (Run_loop 0 \<lparr>title = ''old'', alive = {0, 1}, mailbox = (\<lambda>t. [])\<rparr>
     [\<lparr>m_sender = 1, m_header = eSetTitle, m_payload = any_size_t 5\<rparr>,
      \<lparr>m_sender = 1, m_header = eSetTitle, m_payload = any_string ''new''\<rparr>]) = ProcessTerminated"
proof -
  let ?wd = "\<lparr>title = ''old'', alive = {0, 1}, mailbox = (\<lambda>t. [])\<rparr>"
  let ?msg = "\<lparr>m_sender = 1, m_header = eSetTitle, m_payload = any_size_t 5\<rparr>"
  have h1: "m_header ?msg = eSetTitle" by simp
  have h2: "\<forall>s. m_payload ?msg \<noteq> any_string s" by simp
  let ?rest = "[\<lparr>m_sender = 1, m_header = eSetTitle, m_payload = any_string ''new''\<rparr>]"
  have h3: "Run_loop 0 ?wd [] = AwaitingMessage ?wd" by simp
  have "Run_loop 0 ?wd ([] @ ?msg # ?rest) = Escaped bad_any_cast ?wd
      \<and> process_after (Run_loop 0 ?wd ([] @ ?msg # ?rest)) = ProcessTerminated"
    using payload_mismatch_is_fatal [OF h1 h2 h3, of ?rest] by (rule conjunct2)
  then show ?thesis unfolding append_Nil .
qed

text \<open>
  Claim C7. In a turn that handles a well-formed request (the header is \<^verbatim>\<open>eSetTitle\<close>
  and the payload is a string) the title is set and the reply goes to
  \<^verbatim>\<open>msg.m_sender.lock()\<close>, the weak reference the received message carries. If that task
  still exists, the reply is appended to its mailbox and to no other. If it no longer
  exists, the pointer is null and, by the specification's rule for \<^verbatim>\<open>Reply\<close>, the reply
  is dropped: every mailbox is as before, the turn ends without an exception, and the loop
  goes on with the next message.
\<close>

theorem reply_follows_weak_sender:
  assumes "m_header msg = eSetTitle" and "m_payload msg = any_string s"
  shows "Run_turn self wd msg =
           Inr (Reply (SetTitle wd s) (lock (SetTitle wd s) (m_sender msg))
                  \<lparr>m_sender = self, m_header = 0, m_payload = any_empty\<rparr>)
         \<and> lock (SetTitle wd s) (m_sender msg) =
             (if m_sender msg \<in> alive wd then Some (m_sender msg) else None)
         \<and> (\<exists>wd'. Run_turn self wd msg = Inr wd'
               \<and> Run_loop self wd (msg # rest) = Run_loop self wd' rest
               \<and> title wd' = s \<and> alive wd' = alive wd
               \<and> (m_sender msg \<notin> alive wd \<longrightarrow> mailbox wd' = mailbox wd)
               \<and> (m_sender msg \<in> alive wd \<longrightarrow>
                     mailbox wd' = (mailbox wd)(m_sender msg := mailbox wd (m_sender msg) @
                        [\<lparr>m_sender = self, m_header = 0, m_payload = any_empty\<rparr>])))"
proof -
  let ?reply = "\<lparr>m_sender = self, m_header = 0, m_payload = any_empty\<rparr>"
  let ?wd' = "Reply (SetTitle wd s) (lock (SetTitle wd s) (m_sender msg)) ?reply"
  have t: "Run_turn self wd msg = Inr ?wd'"
    using assms by (simp add: Run_turn_def any_cast_string_def)
  have l: "lock (SetTitle wd s) (m_sender msg) =
      (if m_sender msg \<in> alive wd then Some (m_sender msg) else None)"
    by (simp add: lock_def SetTitle_def)
  have loop: "Run_loop self wd (msg # rest) = Run_loop self ?wd' rest"
    using t by simp
  have props: "title ?wd' = s" "alive ?wd' = alive wd"
    "m_sender msg \<notin> alive wd \<longrightarrow> mailbox ?wd' = mailbox wd"
    "m_sender msg \<in> alive wd \<longrightarrow>
       mailbox ?wd' = (mailbox wd)(m_sender msg := mailbox wd (m_sender msg) @ [?reply])"
    by (simp_all add: lock_def Reply_def SetTitle_def)
  show ?thesis
    using t l loop props by (intro conjI exI [of _ ?wd']) simp_all
qed

text \<open>
  The theorem for a request whose sender, task 2, no longer exists: the title is set,
  all mailboxes stay empty, and the task waits for its next message.
\<close>

theorem reply_follows_weak_sender_witness:
  "Run_loop 0 \<lparr>title = ''old'', alive = {0, 1}, mailbox = (\<lambda>t. [])\<rparr>
     [\<lparr>m_sender = 2, m_header = eSetTitle, m_payload = any_string ''new''\<rparr>]
   = AwaitingMessage \<lparr>title = ''new'', alive = {0, 1}, mailbox = (\<lambda>t. [])\<rparr>"
proof -
  let ?wd = "\<lparr>title = ''old'', alive = {0, 1}, mailbox = (\<lambda>t. [])\<rparr>"
  let ?msg = "\<lparr>m_sender = 2, m_header = eSetTitle, m_payload = any_string ''new''\<rparr>"
  have h1: "m_header ?msg = eSetTitle" and h2: "m_payload ?msg = any_string ''new''"
    by simp_all
  note inst = reply_follows_weak_sender [OF h1 h2, of 0 ?wd "[]"]
  have "Run_turn 0 ?wd ?msg =
      Inr (Reply (SetTitle ?wd ''new'') (lock (SetTitle ?wd ''new'') (m_sender ?msg))
             \<lparr>m_sender = 0, m_header = 0, m_payload = any_empty\<rparr>)"
    using inst by (rule conjunct1)
  moreover have "lock (SetTitle ?wd ''new'') (m_sender ?msg) =
      (if m_sender ?msg \<in> alive ?wd then Some (m_sender ?msg) else None)"
    using inst [THEN conjunct2] by (rule conjunct1)
  ultimately have "Run_turn 0 ?wd ?msg =
      Inr \<lparr>title = ''new'', alive = {0, 1}, mailbox = (\<lambda>t. [])\<rparr>"
    by (simp add: Reply_def SetTitle_def)
  then show ?thesis by simp
qed

subsection \<open>test\_lockfree\_queue.cpp: Enqueue never reports a full queue\<close>





subsection \<open>test\_lockfree\_queue.cpp: no value is lost or duplicated\<close>

text \<open>Replacing one element of a list changes a sum over the list by that element's share.\<close>

lemma sum_list_map_update:
  fixes f :: "'a \<Rightarrow> 'b::comm_monoid_add"
  shows "i < length xs \<Longrightarrow>
    sum_list (map f (xs[i := y])) + f (xs ! i) = sum_list (map f xs) + f y"
proof (induction xs arbitrary: i)
  case Nil
  then show ?case by simp
next
  case (Cons x xs)
  show ?case
  proof (cases i)
    case 0
    then show ?thesis by (simp add: ac_simps)
  next
    case (Suc j)
    then have "sum_list (map f (xs[j := y])) + f (xs ! j) = sum_list (map f xs) + f y"
      using Cons by simp
    then show ?thesis using Suc by (simp add: add.assoc)
  qed
qed

lemma list_all_update: "list_all P xs \<Longrightarrow> P y \<Longrightarrow> list_all P (xs[i := y])"
  using set_update_subset_insert [of xs i y] by (auto simp: list_all_iff)

lemma in_set_update: "x \<in> set (xs[i := y]) \<Longrightarrow> x = y \<or> x \<in> set xs"
  using set_update_subset_insert [of xs i y] by auto

lemma consumer_ok_mono: "consumer_ok c pc \<Longrightarrow> c \<le> c' \<Longrightarrow> consumer_ok c' pc"
  by (cases pc) (auto simp: consumer_ok_def)

lemma upto_last: "0 \<le> e \<Longrightarrow> mset [0..e] = add_mset e (mset [0..e - 1])"
  by (simp add: upto_rec2)

text \<open>Every step of a producer and of a consumer keeps the invariant.\<close>

lemma producer_step_inv:
  assumes inv: "test_inv num_values s"
  shows "test_inv num_values (producer_step num_values i spurious s)"
proof (cases "i < length (producers s)")
  case False
  then show ?thesis using inv by (simp add: producer_step_def)
next
  case True
  let ?xs = "producers s"
  have H: "sum_list (map producer_holds (?xs[i := y])) + producer_holds (?xs ! i) =
      sum_list (map producer_holds ?xs) + producer_holds y" for y
    using True by (rule sum_list_map_update)
  have oks: "list_all (producer_ok num_values) ?xs"
    using inv by (simp add: test_inv_def)
  then have ok: "producer_ok num_values (?xs ! i)"
    using True by (simp add: list_all_length)
  have upd: "producer_ok num_values y \<Longrightarrow> list_all (producer_ok num_values) (?xs[i := y])" for y
    using oks by (rule list_all_update)
  show ?thesis
  proof (cases "?xs ! i")
    case P_while
    then show ?thesis
      using inv True H [of P_load] H [of P_returned] upd [of P_load] upd [of P_returned]
      by (simp add: test_inv_def producer_step_def producer_holds_def producer_ok_def)
  next
    case P_load
    then show ?thesis
      using inv True H [of "P_check (produced s)"] upd [of "P_check (produced s)"]
      by (simp add: test_inv_def producer_step_def producer_holds_def producer_ok_def)
  next
    case (P_check e)
    then show ?thesis
      using inv True H [of "P_cas e"] H [of P_returned] upd [of "P_cas e"] upd [of P_returned]
      by (simp add: test_inv_def producer_step_def producer_holds_def producer_ok_def)
  next
    case (P_cas e)
    show ?thesis
    proof (cases "produced s = e \<and> \<not> spurious")
      case False
      then show ?thesis
        using inv True P_cas H [of "P_check (produced s)"] upd [of "P_check (produced s)"]
        by (auto simp: test_inv_def producer_step_def producer_holds_def producer_ok_def)
    next
      case succ: True
      have e: "0 \<le> e" "e + 1 \<le> num_values"
        using inv succ ok P_cas by (auto simp: test_inv_def producer_ok_def)
      have "sum_list (map producer_holds (?xs[i := P_enqueue e])) =
          sum_list (map producer_holds ?xs) + {#e#}"
        using H [of "P_enqueue e"] P_cas by (simp add: producer_holds_def)
      then show ?thesis
        using inv True P_cas succ e upd [of "P_enqueue e"] upto_last [of e]
        by (simp add: test_inv_def producer_step_def producer_ok_def)
    qed
  next
    case (P_enqueue e)
    have "sum_list (map producer_holds (?xs[i := P_while])) + {#e#} =
        sum_list (map producer_holds ?xs)"
      using H [of P_while] P_enqueue by (simp add: producer_holds_def)
    then have "sum_list (map producer_holds ?xs) =
        add_mset e (sum_list (map producer_holds (?xs[i := P_while])))" by simp
    then show ?thesis
      using inv True P_enqueue upd [of P_while]
      by (simp add: test_inv_def producer_step_def producer_ok_def Enqueue_def)
  next
    case P_returned
    then show ?thesis using inv True by (simp add: producer_step_def)
  qed
qed

lemma consumer_step_inv:
  assumes inv: "test_inv num_values s"
  shows "test_inv num_values (consumer_step num_values i spurious s)"
proof (cases "i < length (consumers s)")
  case False
  then show ?thesis using inv by (simp add: consumer_step_def)
next
  case True
  let ?xs = "consumers s"
  have H: "sum_list (map consumer_holds (?xs[i := y])) + consumer_holds (?xs ! i) =
      sum_list (map consumer_holds ?xs) + consumer_holds y" for y
    using True by (rule sum_list_map_update)
  have U: "sum_list (map consumer_uncounted (?xs[i := y])) + consumer_uncounted (?xs ! i) =
      sum_list (map consumer_uncounted ?xs) + consumer_uncounted y" for y
    using True by (rule sum_list_map_update)
  have oks: "list_all (consumer_ok (consumed s)) ?xs"
    using inv by (simp add: test_inv_def)
  then have ok: "consumer_ok (consumed s) (?xs ! i)"
    using True by (simp add: list_all_length)
  have upd: "consumer_ok (consumed s) y \<Longrightarrow> list_all (consumer_ok (consumed s)) (?xs[i := y])" for y
    using oks by (rule list_all_update)
  have ret: "C_returned \<in> set (?xs[i := y]) \<Longrightarrow> y \<noteq> C_returned \<Longrightarrow> num_values \<le> consumed s" for y
    using inv in_set_update [of C_returned ?xs i y] by (auto simp: test_inv_def)
  show ?thesis
  proof (cases "?xs ! i")
    case C_while
    then show ?thesis
      using inv True H [of C_dequeue] H [of C_returned] U [of C_dequeue] U [of C_returned]
        upd [of C_dequeue] upd [of C_returned] ret [of C_dequeue]
      by (auto simp: test_inv_def consumer_step_def consumer_holds_def consumer_uncounted_def
          consumer_ok_def)
  next
    case C_dequeue
    show ?thesis
    proof (cases "queue s")
      case Nil
      then show ?thesis
        using inv True C_dequeue H [of C_while] U [of C_while] upd [of C_while] ret [of C_while]
        by (auto simp: test_inv_def consumer_step_def consumer_holds_def consumer_uncounted_def
            consumer_ok_def)
    next
      case (Cons v q)
      have "sum_list (map consumer_holds (?xs[i := C_enqueue v])) =
          sum_list (map consumer_holds ?xs) + {#v#}"
        using H [of "C_enqueue v"] C_dequeue by (simp add: consumer_holds_def)
      then show ?thesis
        using inv True C_dequeue Cons U [of "C_enqueue v"] upd [of "C_enqueue v"]
          ret [of "C_enqueue v"]
        by (auto simp: test_inv_def consumer_step_def consumer_uncounted_def consumer_ok_def)
    qed
  next
    case (C_enqueue v)
    have "sum_list (map consumer_holds (?xs[i := C_load])) + {#v#} =
        sum_list (map consumer_holds ?xs)"
      using H [of C_load] C_enqueue by (simp add: consumer_holds_def)
    then have h: "sum_list (map consumer_holds ?xs) =
        add_mset v (sum_list (map consumer_holds (?xs[i := C_load])))" by simp
    have u: "sum_list (map consumer_uncounted (?xs[i := C_load])) =
        sum_list (map consumer_uncounted ?xs) + 1"
      using U [of C_load] C_enqueue by (simp add: consumer_uncounted_def)
    show ?thesis
      using inv True C_enqueue h u upd [of C_load] ret [of C_load]
      by (auto simp: test_inv_def consumer_step_def consumer_ok_def Enqueue_def)
  next
    case C_load
    then show ?thesis
      using inv True H [of "C_desired (consumed s)"] U [of "C_desired (consumed s)"]
        upd [of "C_desired (consumed s)"] ret [of "C_desired (consumed s)"]
      by (auto simp: test_inv_def consumer_step_def consumer_holds_def consumer_uncounted_def
          consumer_ok_def)
  next
    case (C_desired e)
    then show ?thesis
      using inv True ok H [of "C_cas e (consumed s + 1)"] U [of "C_cas e (consumed s + 1)"]
        upd [of "C_cas e (consumed s + 1)"] ret [of "C_cas e (consumed s + 1)"]
      by (auto simp: test_inv_def consumer_step_def consumer_holds_def consumer_uncounted_def
          consumer_ok_def)
  next
    case (C_cas e d)
    show ?thesis
    proof (cases "consumed s = e \<and> \<not> spurious")
      case False
      then show ?thesis
        using inv True C_cas H [of "C_desired (consumed s)"] U [of "C_desired (consumed s)"]
          upd [of "C_desired (consumed s)"] ret [of "C_desired (consumed s)"]
        by (auto simp: test_inv_def consumer_step_def consumer_holds_def consumer_uncounted_def
            consumer_ok_def)
    next
      case succ: True
      have d: "d = consumed s + 1"
        using ok C_cas succ by (simp add: consumer_ok_def)
      have "list_all (consumer_ok d) ?xs"
        using oks d by (auto simp: list_all_iff intro: consumer_ok_mono)
      then have oks': "list_all (consumer_ok d) (?xs[i := C_while])"
        by (rule list_all_update) (simp add: consumer_ok_def)
      have u: "sum_list (map consumer_uncounted (?xs[i := C_while])) + 1 =
          sum_list (map consumer_uncounted ?xs)"
        using U [of C_while] C_cas by (simp add: consumer_uncounted_def)
      have h: "sum_list (map consumer_holds (?xs[i := C_while])) =
          sum_list (map consumer_holds ?xs)"
        using H [of C_while] C_cas by (simp add: consumer_holds_def)
      have r: "C_returned \<in> set (?xs[i := C_while]) \<longrightarrow> num_values \<le> d"
        using ret [of C_while] d by auto
      have "int (length (result s)) =
          d + int (sum_list (map consumer_uncounted (?xs[i := C_while])))"
        using inv d u [symmetric] by (simp add: test_inv_def)
      then show ?thesis
        using inv True C_cas succ oks' h r
        by (simp add: test_inv_def consumer_step_def)
    qed
  next
    case C_returned
    then show ?thesis using inv True by (simp add: consumer_step_def)
  qed
qed

lemma sum_list_replicate_zero: "sum_list (replicate n (0::'a::monoid_add)) = 0"
  by (induction n) simp_all

lemma test_init_inv: "0 \<le> num_values \<Longrightarrow> test_inv num_values (test_init n_producers n_consumers)"
  by (simp add: test_inv_def test_init_def list_all_iff producer_ok_def consumer_ok_def
      producer_holds_def consumer_holds_def consumer_uncounted_def sum_list_replicate_zero)

lemma run_inv:
  assumes "test_inv num_values s"
  shows "test_inv num_values (run num_values s schedule)"
  unfolding run_def using assms
proof (induction schedule arbitrary: s)
  case Nil
  then show ?case by simp
next
  case (Cons c schedule)
  have "test_inv num_values (step num_values s c)"
    using Cons.prems by (cases c) (simp_all add: producer_step_inv consumer_step_inv)
  then show ?case using Cons.IH by simp
qed

lemma length_consumers_step: "length (consumers (step num_values s c)) = length (consumers s)"
  by (cases c)
    (auto simp: producer_step_def consumer_step_def
      split: producer_pc.splits consumer_pc.splits prod.splits option.splits)

lemma length_consumers_run:
  "length (consumers (run num_values s schedule)) = length (consumers s)"
  unfolding run_def
  by (induction schedule arbitrary: s) (simp_all add: length_consumers_step)

lemma sum_list_map_zero:
  "(\<And>x. x \<in> set xs \<Longrightarrow> f x = (0::'a::monoid_add)) \<Longrightarrow> sum_list (map f xs) = 0"
  by (induction xs) simp_all

text \<open>
  When all threads have returned, nothing is held or uncounted; a consumer returns only
  once the counter has reached the number of values, and the result cannot hold more
  values than were produced.
\<close>

lemma all_returned_result:
  assumes inv: "test_inv num_values s"
    and fin: "all_returned s"
    and some: "consumers s \<noteq> []"
  shows "mset (result s) = mset [0..num_values - 1] \<and> queue s = []
         \<and> produced s = num_values \<and> consumed s = num_values"
proof -
  have ps: "\<And>pc. pc \<in> set (producers s) \<Longrightarrow> pc = P_returned"
    and cs: "\<And>pc. pc \<in> set (consumers s) \<Longrightarrow> pc = C_returned"
    using fin by (auto simp: all_returned_def list_all_iff)
  have hp: "sum_list (map producer_holds (producers s)) = {#}"
    by (rule sum_list_map_zero) (auto dest: ps simp: producer_holds_def)
  have hc: "sum_list (map consumer_holds (consumers s)) = {#}"
    by (rule sum_list_map_zero) (auto dest: cs simp: consumer_holds_def)
  have uc: "sum_list (map consumer_uncounted (consumers s)) = 0"
    by (rule sum_list_map_zero) (auto dest: cs simp: consumer_uncounted_def)
  have "hd (consumers s) \<in> set (consumers s)" using some by simp
  then have "C_returned \<in> set (consumers s)" using cs by force
  then have enough: "num_values \<le> consumed s"
    using inv by (simp add: test_inv_def)
  have len: "int (length (result s)) = consumed s"
    using inv uc by (simp add: test_inv_def)
  have p: "0 \<le> produced s" "produced s \<le> num_values"
    using inv by (simp_all add: test_inv_def)
  have all: "mset (queue s) + mset (result s) = mset [0..produced s - 1]"
    using inv hp hc by (simp add: test_inv_def)
  then have "size (mset (queue s) + mset (result s)) = size (mset [0..produced s - 1])"
    by simp
  then have "length (queue s) + length (result s) = nat (produced s)"
    using p(1) by simp
  then have "length (queue s) = 0" and "produced s = num_values" and "consumed s = num_values"
    using len enough p by linarith+
  then have "queue s = []" and "produced s = num_values" and "consumed s = num_values"
    by simp_all
  then show ?thesis using all by simp
qed

text \<open>\<^verbatim>\<open>verify\<close> passes on every queue that holds each of the values once.\<close>

lemma verify_drain_set:
  "sorted std_set \<Longrightarrow> distinct std_set \<Longrightarrow>
   sorted (verify_drain q std_set) \<and> distinct (verify_drain q std_set)
   \<and> set (verify_drain q std_set) = set q \<union> set std_set"
proof (induction q arbitrary: std_set)
  case Nil
  then show ?case by simp
next
  case (Cons x q)
  have "sorted (insort_insert x std_set)" "distinct (insort_insert x std_set)"
    using Cons.prems by (simp_all add: sorted_insort_insert distinct_insort_insert)
  from Cons.IH [OF this] show ?case
    by (simp add: set_insort_insert)
qed

lemma verify_order_upto: "verify_order [i..j] i = Passed"
proof (induction i j rule: upto.induct)
  case (1 i j)
  then show ?case by (cases "i \<le> j") (simp_all add: upto.simps)
qed

lemma verify_Passed:
  assumes "0 \<le> num_values" and "mset q = mset [0..num_values - 1]"
  shows "verify num_values q = Passed"
proof -
  have "set q = set [0..num_values - 1]"
    using assms(2) by (rule mset_eq_setD)
  then have "sorted (verify_drain q []) \<and> distinct (verify_drain q [])
      \<and> set (verify_drain q []) = set [0..num_values - 1]"
    using verify_drain_set [of "[]" q] by simp
  then have "verify_drain q [] = [0..num_values - 1]"
    by (intro sorted_distinct_set_unique) simp_all
  then show ?thesis
    using assms(1) verify_order_upto [of 0 "num_values - 1"] by (simp add: verify_def)
qed

text \<open>The sequential schedule, phase by phase.\<close>

lemma concat_replicate_Suc: "concat (replicate (Suc k) xs) = concat (replicate k xs) @ xs"
proof -
  have "replicate (Suc k) xs = replicate k xs @ [xs]"
    by (simp add: replicate_append_same)
  then show ?thesis by (simp del: replicate_Suc)
qed

lemma run_append: "run n s (xs @ ys) = run n (run n s xs) ys"
  by (simp add: run_def)

lemma producer_turn_run:
  assumes "int k < num_values" and "0 < P"
  shows "run num_values
           \<lparr>produced = int k, consumed = c, queue = q, result = r,
            producers = replicate P P_while, consumers = cs\<rparr> producer_turn =
         \<lparr>produced = int k + 1, consumed = c, queue = q @ [int k], result = r,
          producers = replicate P P_while, consumers = cs\<rparr>"
  using assms
  by (simp add: producer_turn_def run_def numeral_eq_Suc producer_step_def Enqueue_def
      list_update_same_conv)

lemma producer_turns_run:
  assumes "int k \<le> num_values" and "0 < P"
  shows "run num_values (test_init P C) (concat (replicate k producer_turn)) =
         \<lparr>produced = int k, consumed = 0, queue = map int [0..<k], result = [],
          producers = replicate P P_while, consumers = replicate C C_while\<rparr>"
  using assms(1)
proof (induction k)
  case 0
  show ?case by (simp add: run_def test_init_def)
next
  case (Suc k)
  have "concat (replicate (Suc k) producer_turn) = concat (replicate k producer_turn) @ producer_turn"
    by (rule concat_replicate_Suc)
  then show ?case
    using Suc assms(2) by (simp add: run_append producer_turn_run del: replicate_Suc)
qed

lemma replicate_update_next:
  assumes "j < n"
  shows "(replicate j a @ replicate (n - j) b)[j := a] = replicate (Suc j) a @ replicate (n - Suc j) b"
proof -
  have "n - j = Suc (n - Suc j)" using assms by simp
  then have "replicate (n - j) b = b # replicate (n - Suc j) b" by simp
  then show ?thesis by (simp add: list_update_append replicate_append_same)
qed

lemma producers_return_run:
  assumes "j \<le> P"
  shows "run num_values
           \<lparr>produced = num_values, consumed = c, queue = q, result = r,
            producers = replicate P P_while, consumers = cs\<rparr>
           (map (\<lambda>i. Producer i False) [0..<j]) =
         \<lparr>produced = num_values, consumed = c, queue = q, result = r,
          producers = replicate j P_returned @ replicate (P - j) P_while, consumers = cs\<rparr>"
  using assms
proof (induction j)
  case 0
  show ?case by (simp add: run_def)
next
  case (Suc j)
  then have j: "j < P" by simp
  have at: "(replicate j P_returned @ replicate (P - j) P_while) ! j = P_while"
    using j by (simp add: nth_append)
  show ?case
    using Suc j at replicate_update_next [OF j, of P_returned P_while]
    by (simp add: run_append producer_step_def run_def del: replicate_Suc)
qed

lemma consumer_turn_run:
  assumes "int k < num_values" and "0 < C"
  shows "run num_values
           \<lparr>produced = p, consumed = int k, queue = v # q, result = r,
            producers = ps, consumers = replicate C C_while\<rparr> consumer_turn =
         \<lparr>produced = p, consumed = int k + 1, queue = q, result = r @ [v],
          producers = ps, consumers = replicate C C_while\<rparr>"
  using assms
  by (simp add: consumer_turn_def run_def numeral_eq_Suc consumer_step_def Enqueue_def
      list_update_same_conv)

lemma consumer_turns_run:
  assumes "k \<le> n" and "int n \<le> num_values" and "0 < C"
  shows "run num_values
           \<lparr>produced = p, consumed = 0, queue = map int [0..<n], result = [],
            producers = ps, consumers = replicate C C_while\<rparr>
           (concat (replicate k consumer_turn)) =
         \<lparr>produced = p, consumed = int k, queue = map int [k..<n], result = map int [0..<k],
          producers = ps, consumers = replicate C C_while\<rparr>"
  using assms(1)
proof (induction k)
  case 0
  show ?case by (simp add: run_def)
next
  case (Suc k)
  then have k: "k < n" by simp
  then have q: "map int [k..<n] = int k # map int [Suc k..<n]"
    by (simp add: upt_conv_Cons)
  have lt: "int k < num_values" using k assms(2) by simp
  show ?case
    using Suc k consumer_turn_run [OF lt assms(3)]
    by (simp add: concat_replicate_Suc run_append q del: replicate_Suc upt_Suc)
      (simp add: upt_Suc)
qed

lemma consumers_return_run:
  assumes "j \<le> C"
  shows "run num_values
           \<lparr>produced = p, consumed = num_values, queue = q, result = r,
            producers = ps, consumers = replicate C C_while\<rparr>
           (map (\<lambda>i. Consumer i False) [0..<j]) =
         \<lparr>produced = p, consumed = num_values, queue = q, result = r,
          producers = ps, consumers = replicate j C_returned @ replicate (C - j) C_while\<rparr>"
  using assms
proof (induction j)
  case 0
  show ?case by (simp add: run_def)
next
  case (Suc j)
  then have j: "j < C" by simp
  have at: "(replicate j C_returned @ replicate (C - j) C_while) ! j = C_while"
    using j by (simp add: nth_append)
  show ?case
    using Suc j at replicate_update_next [OF j, of C_returned C_while]
    by (simp add: run_append consumer_step_def run_def del: replicate_Suc)
qed

lemma sequential_schedule_returns:
  assumes "0 \<le> num_values" and "0 < P" and "0 < C"
  shows "run num_values (test_init P C) (sequential_schedule (nat num_values) P C) =
         \<lparr>produced = num_values, consumed = num_values, queue = [],
          result = map int [0..<nat num_values],
          producers = replicate P P_returned, consumers = replicate C C_returned\<rparr>"
proof -
  let ?n = "nat num_values"
  have n: "int ?n = num_values" using assms(1) by simp
  have 1: "run num_values (test_init P C) (concat (replicate ?n producer_turn)) =
         \<lparr>produced = num_values, consumed = 0, queue = map int [0..<?n], result = [],
          producers = replicate P P_while, consumers = replicate C C_while\<rparr>"
    using producer_turns_run [of ?n num_values P C] assms n by simp
  have 2: "run num_values \<lparr>produced = num_values, consumed = 0, queue = map int [0..<?n], result = [],
          producers = replicate P P_while, consumers = replicate C C_while\<rparr>
          (map (\<lambda>i. Producer i False) [0..<P]) =
         \<lparr>produced = num_values, consumed = 0, queue = map int [0..<?n], result = [],
          producers = replicate P P_returned, consumers = replicate C C_while\<rparr>"
    using producers_return_run [of P P num_values] by simp
  have 3: "run num_values \<lparr>produced = num_values, consumed = 0, queue = map int [0..<?n], result = [],
          producers = replicate P P_returned, consumers = replicate C C_while\<rparr>
          (concat (replicate ?n consumer_turn)) =
         \<lparr>produced = num_values, consumed = num_values, queue = [], result = map int [0..<?n],
          producers = replicate P P_returned, consumers = replicate C C_while\<rparr>"
    using consumer_turns_run [of ?n ?n num_values C] assms n by simp
  have 4: "run num_values \<lparr>produced = num_values, consumed = num_values, queue = [],
          result = map int [0..<?n],
          producers = replicate P P_returned, consumers = replicate C C_while\<rparr>
          (map (\<lambda>i. Consumer i False) [0..<C]) =
         \<lparr>produced = num_values, consumed = num_values, queue = [], result = map int [0..<?n],
          producers = replicate P P_returned, consumers = replicate C C_returned\<rparr>"
    using consumers_return_run [of C C num_values] by simp
  show ?thesis
    by (simp only: sequential_schedule_def run_append 1 2 3 4)
qed

text \<open>
  Claim C1. Take any number of values \<open>num_values \<ge> 0\<close>, at least one producer and at
  least one consumer (the test has 10,000,000 values, 32 producers and 32 consumers). A
  run of \<^verbatim>\<open>test\<close> is any interleaving of the threads' steps, with any spurious failures
  of the weak compare-and-swap. There are runs that end, that is, in which all threads
  return; and in every run that ends, the result queue holds exactly the integers
  \<open>0, \<dots>, num_values - 1\<close>, each once (as a multiset), the input queue is empty, and
  \<^verbatim>\<open>verify\<close> passes both of its assertions on the result. The queue operations are
  indivisible steps, as the mutex of \<^verbatim>\<open>BlockingQueue\<close> makes them, and a load reads the
  current value of its counter.
\<close>

theorem queue_test_no_loss_no_duplication:
  assumes "0 \<le> num_values" and "0 < n_producers" and "0 < n_consumers"
  shows "(\<exists>schedule. all_returned (run num_values (test_init n_producers n_consumers) schedule))
         \<and> (\<forall>schedule.
               all_returned (run num_values (test_init n_producers n_consumers) schedule) \<longrightarrow>
                 mset (result (run num_values (test_init n_producers n_consumers) schedule)) =
                   mset [0..num_values - 1]
                 \<and> queue (run num_values (test_init n_producers n_consumers) schedule) = []
                 \<and> verify num_values
                     (result (run num_values (test_init n_producers n_consumers) schedule)) = Passed)"
proof (intro conjI allI impI)
  have "all_returned (run num_values (test_init n_producers n_consumers)
      (sequential_schedule (nat num_values) n_producers n_consumers))"
    by (simp add: sequential_schedule_returns [OF assms] all_returned_def list_all_iff)
  then show "\<exists>schedule. all_returned (run num_values (test_init n_producers n_consumers) schedule)"
    by (rule exI)
next
  fix schedule
  let ?s = "run num_values (test_init n_producers n_consumers) schedule"
  assume fin: "all_returned ?s"
  have inv: "test_inv num_values ?s"
    using assms(1) by (intro run_inv test_init_inv)
  have "length (consumers ?s) = n_consumers"
    by (simp add: length_consumers_run test_init_def)
  then have "consumers ?s \<noteq> []" using assms(3) by auto
  from all_returned_result [OF inv fin this]
  have r: "mset (result ?s) = mset [0..num_values - 1]" and q: "queue ?s = []" by simp_all
  show "mset (result ?s) = mset [0..num_values - 1]" by (rule r)
  show "queue ?s = []" by (rule q)
  show "verify num_values (result ?s) = Passed"
    using assms(1) r by (rule verify_Passed)
qed

text \<open>
  The theorem on a run with two values, two producers and one consumer. Both producers
  load the counter at 0; producer 0 wins the compare-and-swap, producer 1 fails, retries
  with 1, fails once spuriously and then succeeds; producer 1 enqueues its value first.
  The consumer then moves both values: the result holds 1 before 0, and \<^verbatim>\<open>verify\<close>
  passes. And the theorem at the numbers of the test itself: with 10,000,000 values, 32
  producers and 32 consumers there is a run that ends, with the result that the claim
  describes.
\<close>

theorem queue_test_no_loss_no_duplication_witness:
  "(let s = run 2 (test_init 2 1)
      [Producer 0 False, Producer 0 False, Producer 0 False,
       Producer 1 False, Producer 1 False, Producer 1 False,
       Producer 0 False,
       Producer 1 False, Producer 1 False, Producer 1 True, Producer 1 False, Producer 1 False,
       Producer 1 False, Producer 1 False,
       Producer 0 False, Producer 0 False,
       Consumer 0 False, Consumer 0 False, Consumer 0 False, Consumer 0 False, Consumer 0 False,
       Consumer 0 False, Consumer 0 False, Consumer 0 False, Consumer 0 False, Consumer 0 False,
       Consumer 0 False, Consumer 0 False, Consumer 0 False]
    in all_returned s \<and> result s = [1, 0] \<and> verify 2 (result s) = Passed)
   \<and> (\<exists>schedule.
         all_returned (run kNumValues (test_init kProducerCount kConsumerCount) schedule)
         \<and> mset (result (run kNumValues (test_init kProducerCount kConsumerCount) schedule)) =
             mset [0..kNumValues - 1]
         \<and> verify kNumValues
             (result (run kNumValues (test_init kProducerCount kConsumerCount) schedule)) = Passed)"
proof -
  let ?schedule = "[Producer 0 False, Producer 0 False, Producer 0 False,
       Producer 1 False, Producer 1 False, Producer 1 False,
       Producer 0 False,
       Producer 1 False, Producer 1 False, Producer 1 True, Producer 1 False, Producer 1 False,
       Producer 1 False, Producer 1 False,
       Producer 0 False, Producer 0 False,
       Consumer 0 False, Consumer 0 False, Consumer 0 False, Consumer 0 False, Consumer 0 False,
       Consumer 0 False, Consumer 0 False, Consumer 0 False, Consumer 0 False, Consumer 0 False,
       Consumer 0 False, Consumer 0 False, Consumer 0 False]"
  have r: "run 2 (test_init 2 1) ?schedule =
      \<lparr>produced = 2, consumed = 2, queue = [], result = [1, 0],
       producers = [P_returned, P_returned], consumers = [C_returned]\<rparr>"
    by code_simp
  have h1: "(0::int) \<le> 2" and h2: "(0::nat) < 2" and h3: "(0::nat) < 1" by simp_all
  have h: "all_returned (run 2 (test_init 2 1) ?schedule)"
    unfolding r by (simp add: all_returned_def)
  have "\<forall>schedule. all_returned (run 2 (test_init 2 1) schedule) \<longrightarrow>
      mset (result (run 2 (test_init 2 1) schedule)) = mset [0..2 - 1]
      \<and> queue (run 2 (test_init 2 1) schedule) = []
      \<and> verify 2 (result (run 2 (test_init 2 1) schedule)) = Passed"
    using queue_test_no_loss_no_duplication [OF h1 h2 h3] by (rule conjunct2)
  then have "verify 2 (result (run 2 (test_init 2 1) ?schedule)) = Passed"
    using h by blast
  then have small: "let s = run 2 (test_init 2 1) ?schedule
      in all_returned s \<and> result s = [1, 0] \<and> verify 2 (result s) = Passed"
    using h unfolding Let_def r by simp
  have k1: "0 \<le> kNumValues" and k2: "0 < kProducerCount" and k3: "0 < kConsumerCount"
    by (simp_all add: kNumValues_def kProducerCount_def kConsumerCount_def)
  have test: "\<exists>schedule.
         all_returned (run kNumValues (test_init kProducerCount kConsumerCount) schedule)
         \<and> mset (result (run kNumValues (test_init kProducerCount kConsumerCount) schedule)) =
             mset [0..kNumValues - 1]
         \<and> verify kNumValues
             (result (run kNumValues (test_init kProducerCount kConsumerCount) schedule)) = Passed"
    using queue_test_no_loss_no_duplication [OF k1 k2 k3] by blast
  show ?thesis using small test by (rule conjI)
qed

subsection \<open>The task runtime: per-sender order and closed mailboxes\<close>





text \<open>A step leaves a Terminated task as it is.\<close>

lemma terminated_task_unchanged:
  "m_state (tasks rt r) = Terminated \<Longrightarrow> tasks (runtime_step rt e) r = tasks rt r"
  by (cases e) (auto simp: Send_def Receive_def split: list.splits)

lemma terminated_task_unchanged_run:
  "m_state (tasks rt r) = Terminated \<Longrightarrow> tasks (runtime_run rt events) r = tasks rt r"
  unfolding runtime_run_def
proof (induction events arbitrary: rt)
  case Nil
  show ?case by simp
next
  case (Cons e events)
  have same: "tasks (runtime_step rt e) r = tasks rt r"
    using Cons.prems by (rule terminated_task_unchanged)
  then have "m_state (tasks (runtime_step rt e) r) = Terminated"
    using Cons.prems by simp
  from Cons.IH [OF this] show ?case using same by simp
qed

text \<open>
  Claim C4. Once a task is Terminated then, at every later point of every run, a send to
  it returns Closed and leaves the task as it was, so the Message is not in its mailbox;
  the mailbox is the one it had when it terminated; and a query of its state answers
  Terminated.
\<close>

theorem terminated_mailbox_is_closed:
  assumes "m_state (tasks rt r) = Terminated"
  shows "Send (tasks (runtime_run rt events) r) msg = (Closed, tasks (runtime_run rt events) r)
         \<and> m_mailbox (tasks (runtime_run rt events) r) = m_mailbox (tasks rt r)
         \<and> query_state (tasks (runtime_run rt events) r) = Terminated"
  using assms terminated_task_unchanged_run [OF assms, of events]
  by (simp add: Send_def query_state_def)

text \<open>
  The theorem for task 0, which received one Message into its mailbox and then returned:
  a later send of another Message is refused with Closed, and the mailbox still holds the
  first Message alone.
\<close>

theorem terminated_mailbox_is_closed_witness:
  "(let m1 = \<lparr>m_sender = 1, m_header = 0, m_payload = any_string ''one''\<rparr>;
        m2 = \<lparr>m_sender = 1, m_header = 0, m_payload = any_string ''two''\<rparr>;
        rt = runtime_run runtime_init [SendTo 0 m1, Returns 0];
        rt' = runtime_run rt [SendTo 0 m2, ReceiveBy 0]
    in send_log rt' = [(0, m1, Accepted), (0, m2, Closed)]
       \<and> fst (Send (tasks rt' 0) m2) = Closed
       \<and> m_mailbox (tasks rt' 0) = [m1]
       \<and> query_state (tasks rt' 0) = Terminated)"
proof -
  let ?m1 = "\<lparr>m_sender = 1, m_header = 0, m_payload = any_string ''one''\<rparr>"
  let ?m2 = "\<lparr>m_sender = 1, m_header = 0, m_payload = any_string ''two''\<rparr>"
  let ?rt = "runtime_run runtime_init [SendTo 0 ?m1, Returns 0]"
  let ?rt' = "runtime_run ?rt [SendTo 0 ?m2, ReceiveBy 0]"
  have h: "m_state (tasks ?rt 0) = Terminated"
    by (simp add: runtime_run_def runtime_init_def Send_def)
  have m: "m_mailbox (tasks ?rt 0) = [?m1]"
    by (simp add: runtime_run_def runtime_init_def Send_def)
  have l: "send_log ?rt' = [(0, ?m1, Accepted), (0, ?m2, Closed)]"
    by (simp add: runtime_run_def runtime_init_def Send_def Receive_def)
  from terminated_mailbox_is_closed [OF h, of "[SendTo 0 ?m2, ReceiveBy 0]" ?m2]
  have "fst (Send (tasks ?rt' 0) ?m2) = Closed"
    and "m_mailbox (tasks ?rt' 0) = [?m1]"
    and "query_state (tasks ?rt' 0) = Terminated"
    by (simp_all only: m fst_conv)
  then show ?thesis using l by (simp only: Let_def simp_thms)
qed

end
